theory Spec2Isabelle
  imports Main "HOL-Library.Sublist" "HOL-Library.Word" "HOL-Library.Char_ord"
    "HOL-Library.List_Lexorder"
begin

section \<open>Strings of the C program\<close>

text \<open>
  A C string is modelled by the list of its bytes before the terminating NUL.
  Where the source reads bytes that a caller might hand over with a NUL inside
  (a list is not forced to be NUL free), the model stops at that byte as the C loop does.
\<close>

definition NUL :: char where
  "NUL = CHR 0x00"

section \<open>defang (libhttpd.c, lines 841-901)\<close>

text \<open>
  The switch of \<^verbatim>\<open>defang\<close>: the bytes one source byte is turned into. In every
  case the loop body together with the \<^verbatim>\<open>++cp2\<close> of the loop header advances the
  output pointer by the length of the string returned here.
\<close>

definition defang_char :: "char \<Rightarrow> string" where
  "defang_char c =
     (if c = CHR ''<'' then ''&lt;''
      else if c = CHR ''>'' then ''&gt;''
      else if c = CHR ''&'' then ''&amp;''
      else if c = CHR 0x22 then ''&quot;''
      else if c = CHR 0x27 then ''&#39;''
      else if c = CHR ''?'' then ''&#63;''
      else [c])"

text \<open>
  The loop \<^verbatim>\<open>for (cp1 = str, cp2 = dfstr; *cp1 != '\0' && cp2 - dfstr < dfsize - 8; ++cp1, ++cp2)\<close>.
  \<open>off\<close> is \<^verbatim>\<open>cp2 - dfstr\<close>; the result is what is written from \<open>off\<close> on, before the
  final \<^verbatim>\<open>*cp2 = '\0'\<close>.
\<close>

fun defang_from :: "string \<Rightarrow> int \<Rightarrow> int \<Rightarrow> string" where
  "defang_from [] off dfsize = []"
| "defang_from (c # cs) off dfsize =
     (if c \<noteq> NUL \<and> off < dfsize - 8
      then defang_char c @ defang_from cs (off + int (length (defang_char c))) dfsize
      else [])"

definition defang :: "string \<Rightarrow> int \<Rightarrow> string" where
  "defang str dfsize = defang_from str 0 dfsize"

text \<open>The six entities that \<^verbatim>\<open>defang\<close> writes.\<close>

definition html_entities :: "string list" where
  "html_entities = [''&lt;'', ''&gt;'', ''&amp;'', ''&quot;'', ''&#39;'', ''&#63;'']"

text \<open>Every ampersand of a string is the first byte of one of the six entities.\<close>

fun amps_start_entities :: "string \<Rightarrow> bool" where
  "amps_start_entities [] = True"
| "amps_start_entities (c # cs) =
     ((if c = CHR ''&'' then list_ex (\<lambda>e. prefix e (c # cs)) html_entities else True)
      \<and> amps_start_entities cs)"

definition defang_forbidden :: "char set" where
  "defang_forbidden = {CHR ''<'', CHR ''>'', CHR 0x22, CHR 0x27, CHR ''?''}"

section \<open>Properties of defang\<close>

lemma defang_char_length: "length (defang_char c) \<le> 6"
  by (simp add: defang_char_def)

lemma defang_char_forbidden: "set (defang_char c) \<inter> defang_forbidden = {}"
  by (simp add: defang_char_def defang_forbidden_def)

lemma defang_from_forbidden: "set (defang_from s off n) \<inter> defang_forbidden = {}"
proof (induction s arbitrary: off)
  case Nil
  then show ?case by simp
next
  case (Cons c cs)
  have "set (defang_char c) \<inter> defang_forbidden = {}"
    by (rule defang_char_forbidden)
  with Cons show ?case
    by (auto simp: Int_Un_distrib2)
qed

lemma defang_from_length: "length (defang_from s off n) \<le> 6 * length s"
proof (induction s arbitrary: off)
  case Nil
  then show ?case by simp
next
  case (Cons c cs)
  have "length (defang_from cs (off + int (length (defang_char c))) n) \<le> 6 * length cs"
    by (rule Cons.IH)
  moreover have "length (defang_char c) \<le> 6"
    by (rule defang_char_length)
  ultimately show ?case by simp
qed

lemma amps_start_entities_append_plain:
  "c \<noteq> CHR ''&'' \<Longrightarrow> amps_start_entities t \<Longrightarrow> amps_start_entities (c # t)"
  by simp

lemma amps_start_entities_defang_char:
  "amps_start_entities t \<Longrightarrow> amps_start_entities (defang_char c @ t)"
  by (simp add: defang_char_def html_entities_def)

lemma defang_from_entities: "amps_start_entities (defang_from s off n)"
proof (induction s arbitrary: off)
  case Nil
  then show ?case by simp
next
  case (Cons c cs)
  show ?case
    using amps_start_entities_defang_char [OF Cons.IH] by simp
qed

text \<open>
  C8, as the specification states it: the output is at most five times as long as the
  input. It fails on a double quote, whose entity \<^verbatim>\<open>&quot;\<close> has six bytes.
\<close>

theorem defang_five_times_counterexample:
  "\<not> length (defang [CHR 0x22] 1000) \<le> 5 * length [CHR 0x22]"
  by (simp add: defang_def defang_char_def NUL_def)

text \<open>
  C8, amended: for every input string and every destination size, the output of
  \<^verbatim>\<open>defang\<close> contains none of \<^verbatim>\<open><\<close>, \<^verbatim>\<open>>\<close>, the double quote, the single quote and
  \<^verbatim>\<open>?\<close>, every \<^verbatim>\<open>&\<close> in it starts one of the six entities, and it is at most six times
  as long as the input.
\<close>

theorem defang_output_safe:
  "set (defang str dfsize) \<inter> defang_forbidden = {}
   \<and> amps_start_entities (defang str dfsize)
   \<and> length (defang str dfsize) \<le> 6 * length str"
  unfolding defang_def
  using defang_from_forbidden defang_from_entities defang_from_length by blast

theorem defang_output_safe_witness:
  "defang ''a<b&\"c'' 1000 = ''a&lt;b&amp;&quot;c''
   \<and> set (defang ''a<b&\"c'' 1000) \<inter> defang_forbidden = {}
   \<and> amps_start_entities (defang ''a<b&\"c'' 1000)
   \<and> length (defang ''a<b&\"c'' 1000) \<le> 6 * length ''a<b&\"c''"
  using defang_output_safe [of "''a<b&\"c''" 1000]
  by (simp add: defang_def defang_char_def NUL_def)

section \<open>de_dotdot (libhttpd.c, lines 2752-2798)\<close>

text \<open>
  \<^verbatim>\<open>strstr\<close>: the offset of the first occurrence of the needle, \<open>None\<close> for the
  C function's NULL.
\<close>

fun strstr :: "string \<Rightarrow> string \<Rightarrow> nat option" where
  "strstr [] needle = (if needle = [] then Some 0 else None)"
| "strstr (c # cs) needle =
     (if prefix needle (c # cs) then Some 0 else map_option Suc (strstr cs needle))"

lemma strstr_None: "strstr h n = None \<longleftrightarrow> \<not> sublist n h"
  by (induction h) (auto simp: sublist_Cons_right)

lemma strstr_Some: "strstr h n = Some i \<Longrightarrow> prefix n (drop i h) \<and> i + length n \<le> length h"
proof (induction h arbitrary: i)
  case Nil
  then show ?case by (simp split: if_splits)
next
  case (Cons c cs)
  show ?case
  proof (cases "prefix n (c # cs)")
    case True
    with Cons.prems show ?thesis by (auto dest: prefix_length_le)
  next
    case False
    with Cons.prems obtain j where j: "strstr cs n = Some j" "i = Suc j"
      by auto
    from Cons.IH [OF j(1)] j(2) show ?thesis by simp
  qed
qed

lemma strstr_split:
  assumes "strstr h n = Some i"
  shows "h = take i h @ n @ drop (i + length n) h"
proof -
  from strstr_Some [OF assms] obtain r where r: "drop i h = n @ r"
    by (auto simp: prefix_def)
  then have "drop (i + length n) h = r"
    by (metis add.commute append_eq_conv_conj drop_drop)
  with r show ?thesis
    by (metis append_take_drop_id)
qed

lemma sublist_join2:
  "sublist [a, b] (p @ s) \<Longrightarrow>
     sublist [a, b] p \<or> sublist [a, b] s \<or> (suffix [a] p \<and> prefix [b] s)"
  by (auto simp: sublist_append Cons_eq_append_conv)

lemma sublist_join3:
  "sublist [a, b, c] (p @ s) \<Longrightarrow>
     sublist [a, b, c] p \<or> sublist [a, b, c] s
     \<or> (suffix [a] p \<and> prefix [b, c] s) \<or> (suffix [a, b] p \<and> prefix [c] s)"
  by (auto simp: sublist_append Cons_eq_append_conv)

text \<open>
  The first loop: \<^verbatim>\<open>while ((cp = strstr(file, "//")))\<close> skips the run of slashes after
  \<^verbatim>\<open>cp + 2\<close> and moves the rest of the string to \<^verbatim>\<open>cp + 1\<close>.
\<close>

function collapse_slashes :: "string \<Rightarrow> string" where
  "collapse_slashes file =
     (case strstr file ''//'' of
        None \<Rightarrow> file
      | Some i \<Rightarrow>
          collapse_slashes
            (take (Suc i) file @ dropWhile (\<lambda>c. c = CHR ''/'') (drop (i + 2) file)))"
  by pat_completeness auto
termination
proof (relation "measure length")
  show "wf (measure length)" by simp
next
  fix fl :: string and i
  assume "strstr fl ''//'' = Some i"
  then have le: "i + 2 \<le> length fl"
    using strstr_Some by fastforce
  have "length (dropWhile (\<lambda>c. c = CHR ''/'') (drop (i + 2) fl)) \<le> length fl - (i + 2)"
    using length_dropWhile_le [of "\<lambda>c. c = CHR ''/''" "drop (i + 2) fl"] by simp
  with le show "(take (Suc i) fl @ dropWhile (\<lambda>c. c = CHR ''/'') (drop (i + 2) fl), fl)
      \<in> measure length"
    by simp
qed

declare collapse_slashes.simps [simp del]

text \<open>\<^verbatim>\<open>if (file[0] == '/') memmove(file, &file[1], strlen(file));\<close>\<close>

definition strip_leading_slash :: "string \<Rightarrow> string" where
  "strip_leading_slash file =
     (case file of [] \<Rightarrow> [] | c # cs \<Rightarrow> if c = CHR ''/'' then cs else file)"

text \<open>\<^verbatim>\<open>while (strncmp(file, "./", 2) == 0) memmove(file, file + 2, strlen(file) - 1);\<close>\<close>

function strip_dot_slash :: "string \<Rightarrow> string" where
  "strip_dot_slash file =
     (if prefix ''./'' file then strip_dot_slash (drop 2 file) else file)"
  by pat_completeness auto
termination
  by (relation "measure length") (auto dest: prefix_length_le)

declare strip_dot_slash.simps [simp del]

text \<open>\<^verbatim>\<open>while ((cp = strstr(file, "/./"))) memmove(cp, cp + 2, strlen(cp) - 1);\<close>\<close>

function remove_slash_dot_slash :: "string \<Rightarrow> string" where
  "remove_slash_dot_slash file =
     (case strstr file ''/./'' of
        None \<Rightarrow> file
      | Some i \<Rightarrow> remove_slash_dot_slash (take i file @ drop (i + 2) file))"
  by pat_completeness auto
termination
proof (relation "measure length")
  show "wf (measure length)" by simp
next
  fix fl :: string and i
  assume "strstr fl ''/./'' = Some i"
  then have "i + 3 \<le> length fl"
    using strstr_Some by fastforce
  then show "(take i fl @ drop (i + 2) fl, fl) \<in> measure length"
    by simp
qed

declare remove_slash_dot_slash.simps [simp del]

text \<open>\<^verbatim>\<open>while (strncmp(file, "../", 3) == 0) memmove(file, file + 3, strlen(file) - 2);\<close>\<close>

function strip_dotdot_slash :: "string \<Rightarrow> string" where
  "strip_dotdot_slash file =
     (if prefix ''../'' file then strip_dotdot_slash (drop 3 file) else file)"
  by pat_completeness auto
termination
  by (relation "measure length") (auto dest: prefix_length_le)

declare strip_dotdot_slash.simps [simp del]

text \<open>
  \<^verbatim>\<open>for (cp2 = cp - 1; cp2 >= file && *cp2 != '/'; --cp2) continue;\<close> The argument and
  the result are \<^verbatim>\<open>cp2 + 1 - file\<close>, so that \<open>0\<close> stands for \<^verbatim>\<open>cp2 < file\<close>.
\<close>

fun scan_back :: "string \<Rightarrow> nat \<Rightarrow> nat" where
  "scan_back file 0 = 0"
| "scan_back file (Suc j) = (if file ! j = CHR ''/'' then Suc j else scan_back file j)"

lemma scan_back_le: "scan_back file i \<le> i"
  by (induction i) auto

lemma strip_dotdot_slash_length: "length (strip_dotdot_slash fl) \<le> length fl"
proof (induction fl rule: strip_dotdot_slash.induct)
  case (1 fl)
  show ?case
  proof (cases "prefix ''../'' fl")
    case True
    with 1 have "length (strip_dotdot_slash (drop 3 fl)) \<le> length (drop 3 fl)" by simp
    with True show ?thesis by (subst strip_dotdot_slash.simps) simp
  next
    case False
    then show ?thesis by (subst strip_dotdot_slash.simps) simp
  qed
qed

text \<open>
  The \<^verbatim>\<open>for (;;)\<close> loop: strip every leading \<^verbatim>\<open>../\<close>, then look for \<^verbatim>\<open>/../\<close>; when
  there is one at \<^verbatim>\<open>cp\<close>, \<^verbatim>\<open>memmove(cp2 + 1, cp + 4, strlen(cp + 3))\<close> drops the
  component before it together with the \<^verbatim>\<open>../\<close>.
\<close>

function collapse_dotdot :: "string \<Rightarrow> string" where
  "collapse_dotdot file =
     (let f = strip_dotdot_slash file in
      case strstr f ''/../'' of
        None \<Rightarrow> f
      | Some i \<Rightarrow> collapse_dotdot (take (scan_back f i) f @ drop (i + 4) f))"
  by pat_completeness auto
termination
proof (relation "measure length")
  show "wf (measure length)" by simp
next
  fix fl f :: string and i
  assume f: "f = strip_dotdot_slash fl" and "strstr f ''/../'' = Some i"
  then have "i + 4 \<le> length f"
    using strstr_Some by fastforce
  moreover have "scan_back f i \<le> i" by (rule scan_back_le)
  moreover have "length f \<le> length fl"
    unfolding f by (rule strip_dotdot_slash_length)
  ultimately show "(take (scan_back f i) f @ drop (i + 4) f, fl) \<in> measure length"
    by simp
qed

declare collapse_dotdot.simps [simp del]

text \<open>
  The last loop: while the string is longer than three bytes and ends in \<^verbatim>\<open>/..\<close>, scan
  back from the byte before that slash; \<^verbatim>\<open>if (cp2 < file) break;\<close> otherwise
  \<^verbatim>\<open>*cp2 = 0\<close> cuts the string at the slash found.
\<close>

function elide_trailing_dotdot :: "string \<Rightarrow> string" where
  "elide_trailing_dotdot file =
     (let l = length file in
      if l > 3 \<and> drop (l - 3) file = ''/..''
      then (let k = scan_back file (l - 3) in
            if k = 0 then file else elide_trailing_dotdot (take (k - 1) file))
      else file)"
  by pat_completeness auto
termination
proof (relation "measure length")
  show "wf (measure length)" by simp
next
  fix fl :: string and l k
  assume "l = length fl" "l > 3 \<and> drop (l - 3) fl = ''/..''" "k = scan_back fl (l - 3)" "k \<noteq> 0"
  moreover have "scan_back fl (l - 3) \<le> l - 3" by (rule scan_back_le)
  ultimately show "(take (k - 1) fl, fl) \<in> measure length"
    by simp
qed

declare elide_trailing_dotdot.simps [simp del]

definition de_dotdot :: "string \<Rightarrow> string" where
  "de_dotdot file =
     elide_trailing_dotdot
       (collapse_dotdot
          (remove_slash_dot_slash
             (strip_dot_slash
                (strip_leading_slash (collapse_slashes file)))))"

lemma sublist_trans: "sublist xs ys \<Longrightarrow> sublist ys zs \<Longrightarrow> sublist xs zs"
  using sublist_order.order_trans by blast

lemma collapse_slashes_clean: "\<not> sublist ''//'' (collapse_slashes fl)"
proof (induction fl rule: collapse_slashes.induct)
  case (1 fl)
  show ?case
  proof (cases "strstr fl ''//''")
    case None
    then have "\<not> sublist ''//'' fl"
      by (simp add: strstr_None)
    with None show ?thesis
      by (subst collapse_slashes.simps) simp
  next
    case (Some i)
    with 1 show ?thesis
      by (subst collapse_slashes.simps) simp
  qed
qed

lemma strip_leading_slash_suffix: "suffix (strip_leading_slash fl) fl"
  by (cases fl) (auto simp: strip_leading_slash_def suffix_Cons)

lemma strip_dot_slash_suffix: "suffix (strip_dot_slash fl) fl"
proof (induction fl rule: strip_dot_slash.induct)
  case (1 fl)
  show ?case
  proof (cases "prefix ''./'' fl")
    case True
    with 1 have "suffix (strip_dot_slash (drop 2 fl)) (drop 2 fl)" by simp
    then have "suffix (strip_dot_slash (drop 2 fl)) fl"
      using suffix_drop suffix_order.trans by blast
    with True show ?thesis by (subst strip_dot_slash.simps) simp
  next
    case False
    then show ?thesis by (subst strip_dot_slash.simps) simp
  qed
qed

lemma strip_dot_slash_clean: "\<not> prefix ''./'' (strip_dot_slash fl)"
proof (induction fl rule: strip_dot_slash.induct)
  case (1 fl)
  show ?case
  proof (cases "prefix ''./'' fl")
    case True
    with 1 show ?thesis by (subst strip_dot_slash.simps) simp
  next
    case False
    then show ?thesis by (subst strip_dot_slash.simps) simp
  qed
qed

text \<open>One step of the \<open>/./\<close> loop.\<close>

lemma remove_step_shape:
  assumes "strstr fl ''/./'' = Some i"
  shows "fl = take i fl @ ''/./'' @ drop (i + 3) fl"
    and "take i fl @ drop (i + 2) fl = (take i fl @ ''/'') @ drop (i + 3) fl"
proof -
  show a: "fl = take i fl @ ''/./'' @ drop (i + 3) fl"
    using strstr_split [OF assms] by (simp add: eval_nat_numeral)
  have "drop (i + 2) fl = drop (i + 2) (take i fl @ ''/./'' @ drop (i + 3) fl)"
    using a by simp
  also have "\<dots> = ''/'' @ drop (i + 3) fl"
    using strstr_Some [OF assms] by simp
  finally show "take i fl @ drop (i + 2) fl = (take i fl @ ''/'') @ drop (i + 3) fl"
    by simp
qed

lemma remove_step_no_slashslash:
  assumes "fl = a @ ''/./'' @ b" and "\<not> sublist ''//'' fl"
  shows "\<not> sublist ''//'' ((a @ ''/'') @ b)"
proof
  assume s: "sublist ''//'' ((a @ ''/'') @ b)"
  have "sublist ''//'' fl"
    using sublist_join2 [OF s]
  proof (elim disjE conjE)
    assume 1: "sublist ''//'' (a @ ''/'')"
    have "prefix (a @ ''/'') fl"
      unfolding assms(1) by simp
    then have "sublist (a @ ''/'') fl"
      by (rule prefix_imp_sublist)
    with 1 show ?thesis by (rule sublist_trans)
  next
    assume 2: "sublist ''//'' b"
    have "fl = (a @ ''/./'') @ b"
      unfolding assms(1) by simp
    then have "suffix b fl"
      by (rule suffixI)
    then have "sublist b fl"
      by (rule suffix_imp_sublist)
    with 2 show ?thesis by (rule sublist_trans)
  next
    assume "prefix ''/'' b"
    then obtain b' where "b = CHR ''/'' # b'"
      by (cases b) simp_all
    then have "fl = (a @ ''/.'') @ ''//'' @ b'"
      unfolding assms(1) by simp
    then show ?thesis
      unfolding sublist_def by (intro exI)
  qed
  with assms(2) show False by contradiction
qed

lemma remove_step_no_dot_prefix:
  assumes "fl = a @ ''/./'' @ b" and "\<not> prefix ''./'' fl"
  shows "\<not> prefix ''./'' ((a @ ''/'') @ b)"
proof (cases a)
  case Nil
  then show ?thesis by simp
next
  case (Cons x xs)
  note a = Cons
  show ?thesis
  proof (cases xs)
    case Nil
    with a assms show ?thesis by simp
  next
    case (Cons y ys)
    with a assms show ?thesis by simp
  qed
qed

lemma remove_slash_dot_slash_None:
  "strstr fl ''/./'' = None \<Longrightarrow> remove_slash_dot_slash fl = fl"
  by (subst remove_slash_dot_slash.simps) simp

lemma remove_slash_dot_slash_Some:
  "strstr fl ''/./'' = Some i \<Longrightarrow>
   remove_slash_dot_slash fl = remove_slash_dot_slash (take i fl @ drop (i + 2) fl)"
  by (subst remove_slash_dot_slash.simps) simp

lemma remove_slash_dot_slash_clean: "\<not> sublist ''/./'' (remove_slash_dot_slash fl)"
proof (induction fl rule: remove_slash_dot_slash.induct)
  case (1 fl)
  show ?case
  proof (cases "strstr fl ''/./''")
    case None
    then have "\<not> sublist ''/./'' fl"
      by (simp add: strstr_None)
    then show ?thesis
      by (simp add: remove_slash_dot_slash_None [OF None])
  next
    case (Some i)
    from "1.IH" [OF Some] show ?thesis
      by (simp add: remove_slash_dot_slash_Some [OF Some])
  qed
qed

lemma remove_slash_dot_slash_keeps:
  "\<not> sublist ''//'' fl \<Longrightarrow> \<not> prefix ''./'' fl \<Longrightarrow>
   \<not> sublist ''//'' (remove_slash_dot_slash fl) \<and> \<not> prefix ''./'' (remove_slash_dot_slash fl)"
proof (induction fl rule: remove_slash_dot_slash.induct)
  case (1 fl)
  show ?case
  proof (cases "strstr fl ''/./''")
    case None
    with "1.prems" show ?thesis
      by (simp add: remove_slash_dot_slash_None [OF None])
  next
    case (Some i)
    note shape = remove_step_shape [OF Some]
    have "\<not> sublist ''//'' (take i fl @ drop (i + 2) fl)"
      by (subst shape(2)) (rule remove_step_no_slashslash [OF shape(1) "1.prems"(1)])
    moreover have "\<not> prefix ''./'' (take i fl @ drop (i + 2) fl)"
      by (subst shape(2)) (rule remove_step_no_dot_prefix [OF shape(1) "1.prems"(2)])
    ultimately show ?thesis
      using "1.IH" [OF Some] by (simp add: remove_slash_dot_slash_Some [OF Some])
  qed
qed

lemma strip_dotdot_slash_stop:
  "\<not> prefix ''../'' fl \<Longrightarrow> strip_dotdot_slash fl = fl"
  by (subst strip_dotdot_slash.simps) simp

lemma strip_dotdot_slash_go:
  "prefix ''../'' fl \<Longrightarrow> strip_dotdot_slash fl = strip_dotdot_slash (drop 3 fl)"
  by (subst strip_dotdot_slash.simps) simp

lemma strip_dotdot_slash_suffix: "suffix (strip_dotdot_slash fl) fl"
proof (induction fl rule: strip_dotdot_slash.induct)
  case (1 fl)
  show ?case
  proof (cases "prefix ''../'' fl")
    case True
    from "1.IH" [OF True] have "suffix (strip_dotdot_slash (drop 3 fl)) fl"
      using suffix_drop suffix_order.trans by blast
    then show ?thesis
      by (simp add: strip_dotdot_slash_go [OF True])
  next
    case False
    then show ?thesis
      by (simp add: strip_dotdot_slash_stop)
  qed
qed

lemma strip_dotdot_slash_clean: "\<not> prefix ''../'' (strip_dotdot_slash fl)"
proof (induction fl rule: strip_dotdot_slash.induct)
  case (1 fl)
  show ?case
  proof (cases "prefix ''../'' fl")
    case True
    from "1.IH" [OF True] show ?thesis
      by (simp add: strip_dotdot_slash_go [OF True])
  next
    case False
    then show ?thesis
      by (simp add: strip_dotdot_slash_stop)
  qed
qed

lemma drop_dotdot_slash_dot:
  assumes "prefix ''../'' fl" and "prefix ''./'' (drop 3 fl)"
  shows "sublist ''/./'' fl"
proof -
  from assms(1) obtain r where r: "fl = ''../'' @ r"
    by (auto simp: prefix_def)
  with assms(2) obtain r' where "r = ''./'' @ r'"
    by (auto simp: prefix_def)
  with r have "fl = ''..'' @ ''/./'' @ r'"
    by simp
  then show ?thesis
    unfolding sublist_def by (intro exI)
qed

lemma strip_dotdot_slash_no_dot_prefix:
  "\<not> sublist ''/./'' fl \<Longrightarrow> \<not> prefix ''./'' fl \<Longrightarrow> \<not> prefix ''./'' (strip_dotdot_slash fl)"
proof (induction fl rule: strip_dotdot_slash.induct)
  case (1 fl)
  show ?case
  proof (cases "prefix ''../'' fl")
    case True
    have "\<not> sublist ''/./'' (drop 3 fl)"
      using "1.prems"(1) sublist_drop sublist_trans by blast
    moreover have "\<not> prefix ''./'' (drop 3 fl)"
      using drop_dotdot_slash_dot [OF True] "1.prems"(1) by blast
    ultimately show ?thesis
      using "1.IH" [OF True] by (simp add: strip_dotdot_slash_go [OF True])
  next
    case False
    with "1.prems" show ?thesis
      by (simp add: strip_dotdot_slash_stop)
  qed
qed

lemma scan_back_shape:
  "i \<le> length fl \<Longrightarrow>
   scan_back fl i = 0 \<or> (\<exists>p. take (scan_back fl i) fl = p @ ''/'')"
proof (induction i)
  case 0
  then show ?case by simp
next
  case (Suc j)
  show ?case
  proof (cases "fl ! j = CHR ''/''")
    case True
    from Suc.prems have "take (Suc j) fl = take j fl @ [fl ! j]"
      by (simp add: take_Suc_conv_app_nth)
    with True show ?thesis by simp
  next
    case False
    with Suc show ?thesis by simp
  qed
qed

lemma collapse_step_keeps:
  assumes fl: "fl = a @ ''/../'' @ b"
    and pa: "prefix p a"
    and p: "p = [] \<or> (\<exists>p'. p = p' @ ''/'')"
    and n2: "\<not> sublist ''//'' fl"
    and n3: "\<not> sublist ''/./'' fl"
    and nd: "\<not> prefix ''./'' fl"
  shows "\<not> sublist ''//'' (p @ b)" and "\<not> sublist ''/./'' (p @ b)" and "\<not> prefix ''./'' (p @ b)"
proof -
  have pfl: "prefix p fl"
    using pa unfolding fl by (rule prefix_prefix)
  then have sp: "sublist p fl"
    by (rule prefix_imp_sublist)
  have "fl = (a @ ''/../'') @ b"
    unfolding fl by simp
  then have "suffix b fl"
    by (rule suffixI)
  then have sb: "sublist b fl"
    by (rule suffix_imp_sublist)
  have slash_b: "sublist ''//'' fl" if "prefix ''/'' b"
  proof -
    from that obtain b' where "b = CHR ''/'' # b'"
      by (cases b) simp_all
    then have "fl = (a @ ''/..'') @ ''//'' @ b'"
      unfolding fl by simp
    then show ?thesis
      unfolding sublist_def by (intro exI)
  qed
  have dot_b: "sublist ''/./'' fl" if "prefix ''./'' b"
  proof -
    from that obtain b' where "b = ''./'' @ b'"
      by (auto simp: prefix_def)
    then have "fl = (a @ ''/..'') @ ''/./'' @ b'"
      unfolding fl by simp
    then show ?thesis
      unfolding sublist_def by (intro exI)
  qed
  show "\<not> sublist ''//'' (p @ b)"
  proof
    assume s: "sublist ''//'' (p @ b)"
    have "sublist ''//'' fl"
      using sublist_join2 [OF s]
    proof (elim disjE conjE)
      assume "sublist ''//'' p"
      then show ?thesis using sp by (rule sublist_trans)
    next
      assume "sublist ''//'' b"
      then show ?thesis using sb by (rule sublist_trans)
    next
      assume "prefix ''/'' b"
      then show ?thesis by (rule slash_b)
    qed
    with n2 show False by contradiction
  qed
  show "\<not> sublist ''/./'' (p @ b)"
  proof
    assume s: "sublist ''/./'' (p @ b)"
    have "sublist ''/./'' fl \<or> sublist ''//'' fl"
      using sublist_join3 [OF s]
    proof (elim disjE conjE)
      assume "sublist ''/./'' p"
      then have "sublist ''/./'' fl" using sp by (rule sublist_trans)
      then show ?thesis ..
    next
      assume "sublist ''/./'' b"
      then have "sublist ''/./'' fl" using sb by (rule sublist_trans)
      then show ?thesis ..
    next
      assume "prefix ''./'' b"
      then have "sublist ''/./'' fl" by (rule dot_b)
      then show ?thesis ..
    next
      assume "prefix ''/'' b"
      then have "sublist ''//'' fl" by (rule slash_b)
      then show ?thesis ..
    qed
    with n2 n3 show False by blast
  qed
  show "\<not> prefix ''./'' (p @ b)"
  proof (cases p)
    case Nil
    with dot_b n3 show ?thesis by auto
  next
    case (Cons x xs)
    note px = Cons
    show ?thesis
    proof (cases xs)
      case Nil
      with px p have "x = CHR ''/''" by simp
      with px Nil show ?thesis by simp
    next
      case (Cons y ys)
      have "prefix ''./'' fl" if "prefix ''./'' (p @ b)"
      proof -
        from that px Cons have "prefix ''./'' p" by simp
        then show ?thesis using pfl by (rule prefix_order.trans)
      qed
      with nd show ?thesis by blast
    qed
  qed
qed

lemma collapse_dotdot_None:
  "strstr (strip_dotdot_slash fl) ''/../'' = None \<Longrightarrow>
   collapse_dotdot fl = strip_dotdot_slash fl"
  by (subst collapse_dotdot.simps) (simp add: Let_def)

lemma collapse_dotdot_Some:
  "strstr (strip_dotdot_slash fl) ''/../'' = Some i \<Longrightarrow>
   collapse_dotdot fl =
     collapse_dotdot (take (scan_back (strip_dotdot_slash fl) i) (strip_dotdot_slash fl)
                      @ drop (i + 4) (strip_dotdot_slash fl))"
  by (subst collapse_dotdot.simps) (simp add: Let_def)

text \<open>What the first three phases establish and the \<^verbatim>\<open>for (;;)\<close> loop keeps.\<close>

definition dot_clean :: "string \<Rightarrow> bool" where
  "dot_clean fl \<longleftrightarrow> \<not> sublist ''//'' fl \<and> \<not> sublist ''/./'' fl \<and> \<not> prefix ''./'' fl"

lemma dot_clean_strip_dotdot_slash:
  assumes "dot_clean fl"
  shows "dot_clean (strip_dotdot_slash fl)"
proof -
  have s: "sublist (strip_dotdot_slash fl) fl"
    by (rule suffix_imp_sublist) (rule strip_dotdot_slash_suffix)
  have "\<not> sublist ''//'' (strip_dotdot_slash fl)"
    using assms s sublist_trans unfolding dot_clean_def by blast
  moreover have "\<not> sublist ''/./'' (strip_dotdot_slash fl)"
    using assms s sublist_trans unfolding dot_clean_def by blast
  moreover have "\<not> prefix ''./'' (strip_dotdot_slash fl)"
    using assms strip_dotdot_slash_no_dot_prefix unfolding dot_clean_def by blast
  ultimately show ?thesis
    unfolding dot_clean_def by blast
qed

lemma dot_clean_collapse_step:
  assumes c: "dot_clean f" and i: "strstr f ''/../'' = Some i"
  shows "dot_clean (take (scan_back f i) f @ drop (i + 4) f)"
proof -
  let ?a = "take i f" and ?b = "drop (i + 4) f" and ?p = "take (scan_back f i) f"
  have shape: "f = ?a @ ''/../'' @ ?b"
    using strstr_split [OF i] by (simp add: eval_nat_numeral)
  have le: "i \<le> length f"
    using strstr_Some [OF i] by simp
  have "?p = take (scan_back f i) ?a"
    using scan_back_le [of f i] by (simp add: min_def)
  then have pa: "prefix ?p ?a"
    by (metis take_is_prefix)
  have p: "?p = [] \<or> (\<exists>p'. ?p = p' @ ''/'')"
    using scan_back_shape [OF le] by auto
  from c have n: "\<not> sublist ''//'' f" "\<not> sublist ''/./'' f" "\<not> prefix ''./'' f"
    unfolding dot_clean_def by blast+
  show ?thesis
    unfolding dot_clean_def
    using collapse_step_keeps [OF shape pa p n] by blast
qed

lemma collapse_dotdot_clean:
  "dot_clean fl \<Longrightarrow>
   dot_clean (collapse_dotdot fl)
   \<and> \<not> sublist ''/../'' (collapse_dotdot fl) \<and> \<not> prefix ''../'' (collapse_dotdot fl)"
proof (induction fl rule: collapse_dotdot.induct)
  case (1 fl)
  let ?f = "strip_dotdot_slash fl"
  have cf: "dot_clean ?f"
    using "1.prems" by (rule dot_clean_strip_dotdot_slash)
  show ?case
  proof (cases "strstr ?f ''/../''")
    case None
    then have "\<not> sublist ''/../'' ?f"
      by (simp add: strstr_None)
    moreover have "\<not> prefix ''../'' ?f"
      by (rule strip_dotdot_slash_clean)
    ultimately show ?thesis
      using cf by (simp add: collapse_dotdot_None [OF None])
  next
    case (Some i)
    have "dot_clean (take (scan_back ?f i) ?f @ drop (i + 4) ?f)"
      using cf Some by (rule dot_clean_collapse_step)
    from "1.IH" [OF refl Some this] show ?thesis
      by (simp add: collapse_dotdot_Some [OF Some])
  qed
qed

lemma elide_trailing_dotdot_prefix: "prefix (elide_trailing_dotdot fl) fl"
proof (induction fl rule: elide_trailing_dotdot.induct)
  case (1 fl)
  let ?l = "length fl" and ?k = "scan_back fl (length fl - 3)"
  show ?case
  proof (cases "?l > 3 \<and> drop (?l - 3) fl = ''/..'' \<and> ?k \<noteq> 0")
    case True
    then have "elide_trailing_dotdot fl = elide_trailing_dotdot (take (?k - 1) fl)"
      by (subst elide_trailing_dotdot.simps) (simp add: Let_def)
    moreover have "prefix (elide_trailing_dotdot (take (?k - 1) fl)) (take (?k - 1) fl)"
      using True by (intro "1.IH" [OF refl _ refl]) simp_all
    ultimately show ?thesis
      using take_is_prefix prefix_order.trans by metis
  next
    case False
    then have "elide_trailing_dotdot fl = fl"
      by (subst elide_trailing_dotdot.simps) (auto simp: Let_def)
    then show ?thesis by simp
  qed
qed

lemma de_dotdot_dot_clean:
  "dot_clean (remove_slash_dot_slash (strip_dot_slash (strip_leading_slash (collapse_slashes fl))))"
proof -
  let ?f1 = "collapse_slashes fl"
  let ?f2 = "strip_leading_slash ?f1"
  let ?f3 = "strip_dot_slash ?f2"
  have "sublist ?f2 ?f1"
    by (rule suffix_imp_sublist) (rule strip_leading_slash_suffix)
  then have n2: "\<not> sublist ''//'' ?f2"
    using collapse_slashes_clean sublist_trans by blast
  have "sublist ?f3 ?f2"
    by (rule suffix_imp_sublist) (rule strip_dot_slash_suffix)
  with n2 have n3: "\<not> sublist ''//'' ?f3"
    using sublist_trans by blast
  have "\<not> prefix ''./'' ?f3"
    by (rule strip_dot_slash_clean)
  with n3 show ?thesis
    unfolding dot_clean_def
    using remove_slash_dot_slash_keeps remove_slash_dot_slash_clean by blast
qed

text \<open>
  C2: for every input string, the output of \<^verbatim>\<open>de_dotdot\<close> contains no \<^verbatim>\<open>//\<close>, no
  \<^verbatim>\<open>/./\<close> and no \<^verbatim>\<open>/../\<close>, and begins neither with \<^verbatim>\<open>./\<close> nor with \<^verbatim>\<open>../\<close>.
\<close>

theorem de_dotdot_output_clean:
  "\<not> sublist ''//'' (de_dotdot fl)
   \<and> \<not> sublist ''/./'' (de_dotdot fl)
   \<and> \<not> sublist ''/../'' (de_dotdot fl)
   \<and> \<not> prefix ''./'' (de_dotdot fl)
   \<and> \<not> prefix ''../'' (de_dotdot fl)"
proof -
  let ?f4 = "remove_slash_dot_slash (strip_dot_slash (strip_leading_slash (collapse_slashes fl)))"
  let ?f5 = "collapse_dotdot ?f4"
  have c5: "dot_clean ?f5" "\<not> sublist ''/../'' ?f5" "\<not> prefix ''../'' ?f5"
    using collapse_dotdot_clean [OF de_dotdot_dot_clean [of fl]] by blast+
  have p: "prefix (de_dotdot fl) ?f5"
    unfolding de_dotdot_def by (rule elide_trailing_dotdot_prefix)
  then have s: "sublist (de_dotdot fl) ?f5"
    by (rule prefix_imp_sublist)
  have keep: "\<not> sublist x (de_dotdot fl)" if "\<not> sublist x ?f5" for x
    using that s sublist_trans by blast
  have keep': "\<not> prefix x (de_dotdot fl)" if "\<not> prefix x ?f5" for x
    using that p prefix_order.trans by blast
  from c5(1) have "\<not> sublist ''//'' ?f5" "\<not> sublist ''/./'' ?f5" "\<not> prefix ''./'' ?f5"
    unfolding dot_clean_def by blast+
  with c5(2,3) show ?thesis
    using keep keep' by blast
qed

theorem de_dotdot_output_clean_witness:
  "de_dotdot ''//a/./b/../c'' = ''a/c''
   \<and> \<not> sublist ''//'' (de_dotdot ''//a/./b/../c'')
   \<and> \<not> sublist ''/./'' (de_dotdot ''//a/./b/../c'')
   \<and> \<not> sublist ''/../'' (de_dotdot ''//a/./b/../c'')
   \<and> \<not> prefix ''./'' (de_dotdot ''//a/./b/../c'')
   \<and> \<not> prefix ''../'' (de_dotdot ''//a/./b/../c'')"
proof -
  have "de_dotdot ''//a/./b/../c'' = ''a/c''"
    by code_simp
  with de_dotdot_output_clean [of "''//a/./b/../c''"] show ?thesis
    by simp
qed

section \<open>The MIME tables and figure_mime (libhttpd.c, lines 2801-2925)\<close>

text \<open>
  \<^verbatim>\<open>struct mime_entry\<close>. The fields \<^verbatim>\<open>ext_len\<close> and \<^verbatim>\<open>val_len\<close> are filled by
  \<^verbatim>\<open>init_mime\<close> with \<^verbatim>\<open>strlen\<close> of the two strings, so the model reads them as
  \<open>length (ext e)\<close> and \<open>length (val e)\<close>. The tables themselves come from
  \<^verbatim>\<open>mime_types.h\<close> and \<^verbatim>\<open>mime_encodings.h\<close>, which are included at build time;
  here they are parameters.
\<close>

record mime_entry =
  ext :: string
  val :: string

text \<open>\<^verbatim>\<open>tolower\<close> in the C locale, on the byte read as \<^verbatim>\<open>unsigned char\<close>.\<close>

definition c_tolower :: "char \<Rightarrow> char" where
  "c_tolower c =
     (if (65::nat) \<le> of_char c \<and> of_char c \<le> (90::nat)
      then char_of (of_char c + (32::nat)) else c)"

text \<open>
  \<^verbatim>\<open>strncasecmp(s1, s2, n)\<close>: at most \<open>n\<close> bytes are compared after case folding, the
  comparison stops behind a NUL, and the result is the difference of the first two bytes
  that differ. Past the end of a list stands the terminator of the C string.
\<close>

fun strncasecmp :: "string \<Rightarrow> string \<Rightarrow> nat \<Rightarrow> int" where
  "strncasecmp s1 s2 0 = 0"
| "strncasecmp s1 s2 (Suc n) =
     (let c1 = (case s1 of [] \<Rightarrow> NUL | x # _ \<Rightarrow> c_tolower x);
          c2 = (case s2 of [] \<Rightarrow> NUL | y # _ \<Rightarrow> c_tolower y)
      in if c1 \<noteq> c2 then int (of_char c1) - int (of_char c2)
         else if c1 = NUL then 0
         else strncasecmp (tl s1) (tl s2) n)"

text \<open>
  \<^verbatim>\<open>init_mime\<close> sorts the table with \<^verbatim>\<open>qsort\<close> and \<^verbatim>\<open>ext_compare\<close>, which is
  \<^verbatim>\<open>strcmp\<close> on the extensions: the lexicographic order of the bytes as unsigned
  values, the order of \<open>string\<close> here.
\<close>

definition init_mime :: "mime_entry list \<Rightarrow> mime_entry list" where
  "init_mime tab = sort_key ext tab"

text \<open>
  The binary search of \<^verbatim>\<open>figure_mime\<close> for one extension \<open>x\<close> (\<^verbatim>\<open>ext\<close>, of
  \<^verbatim>\<open>ext_len\<close> bytes): \<^verbatim>\<open>while (top >= bot)\<close> with \<^verbatim>\<open>mid = (top + bot) / 2\<close>. The
  indices are C \<^verbatim>\<open>int\<close>s; the table is a static array, far from the range where
  \<^verbatim>\<open>top + bot\<close> could overflow. A hit is the entry whose \<^verbatim>\<open>val\<close> becomes \<^verbatim>\<open>hc->type\<close>.
\<close>

function typ_search :: "mime_entry list \<Rightarrow> string \<Rightarrow> int \<Rightarrow> int \<Rightarrow> mime_entry option" where
  "typ_search typ_tab x bot_idx top_idx =
     (if top_idx \<ge> bot_idx
      then (let mid = (top_idx + bot_idx) div 2;
                r = strncasecmp x (ext (typ_tab ! nat mid)) (length x)
            in if r < 0 then typ_search typ_tab x bot_idx (mid - 1)
               else if r > 0 then typ_search typ_tab x (mid + 1) top_idx
               else if length x < length (ext (typ_tab ! nat mid))
                 then typ_search typ_tab x bot_idx (mid - 1)
               else if length x > length (ext (typ_tab ! nat mid))
                 then typ_search typ_tab x (mid + 1) top_idx
               else Some (typ_tab ! nat mid))
      else None)"
  by pat_completeness auto
termination
  by (relation "measure (\<lambda>(t, x, bot_idx, top_idx). nat (top_idx - bot_idx + 1))") auto

declare typ_search.simps [simp del]

text \<open>
  The test of the linear search that \<^verbatim>\<open>figure_mime\<close> runs on the encodings table:
  \<^verbatim>\<open>ext_len == enc_tab[i].ext_len && strncasecmp(ext, enc_tab[i].ext, ext_len) == 0\<close>,
  and a linear scan of the type table with the same test.
\<close>

definition ext_matches :: "string \<Rightarrow> mime_entry \<Rightarrow> bool" where
  "ext_matches x e \<longleftrightarrow> length x = length (ext e) \<and> strncasecmp x (ext e) (length x) = 0"

definition typ_linear :: "mime_entry list \<Rightarrow> string \<Rightarrow> mime_entry option" where
  "typ_linear typ_tab x = find (ext_matches x) typ_tab"

text \<open>An extension of the table as \<^verbatim>\<open>mime_types.h\<close> writes it: lower case, no NUL byte.\<close>

definition lower_ext :: "string \<Rightarrow> bool" where
  "lower_ext t \<longleftrightarrow> list_all (\<lambda>c. c \<noteq> NUL \<and> c_tolower c = c) t"

lemma lower_ext_Cons: "lower_ext (b # ts) \<longleftrightarrow> b \<noteq> NUL \<and> c_tolower b = b \<and> lower_ext ts"
  by (simp add: lower_ext_def)

lemma of_char_int_less: "((of_char c1 :: int) < of_char c2) = (c1 < c2)"
  by (metis less_char_def of_nat_less_iff of_nat_of_char)

lemma of_char_int_eq: "((of_char c1 :: int) = of_char c2) = (c1 = c2)"
  by (metis of_char_eq_iff of_nat_eq_iff of_nat_of_char)

lemma of_char_diff_neg: "(int (of_char c1) - int (of_char c2) < 0) = (c1 < c2)"
  by (simp add: less_char_def)

lemma of_char_diff_pos: "(int (of_char c1) - int (of_char c2) > 0) = (c2 < c1)"
  by (simp add: less_char_def)

lemma of_char_diff_zero: "(int (of_char c1) - int (of_char c2) = 0) = (c1 = c2)"
  by (simp add: of_char_eq_iff)

lemma strncasecmp_order:
  assumes "lower_ext t"
  shows "(strncasecmp x t (length x) < 0 \<or> strncasecmp x t (length x) = 0 \<and> length x < length t)
           = (map c_tolower x < t)"
    and "(strncasecmp x t (length x) > 0 \<or> strncasecmp x t (length x) = 0 \<and> length x > length t)
           = (t < map c_tolower x)"
    and "(strncasecmp x t (length x) = 0 \<and> length x = length t) = (map c_tolower x = t)"
  using assms
proof (induction x arbitrary: t)
  case Nil
  {
    case 1 show ?case by (cases t) simp_all
  next
    case 2 show ?case by simp
  next
    case 3 show ?case by (cases t) simp_all
  }
next
  case (Cons a xs)
  {
    case 1
    show ?case
    proof (cases t)
      case Nil
      then show ?thesis
        by (auto simp: Let_def of_char_int_less of_char_int_eq less_char_def NUL_def)
    next
      case (Cons b ts)
      with 1 have b: "b \<noteq> NUL" "c_tolower b = b" "lower_ext ts"
        by (simp_all add: lower_ext_Cons)
      show ?thesis
      proof (cases "c_tolower a = b")
        case True
        with b Cons Cons.IH(1) [OF b(3)] show ?thesis
          by (simp add: Let_def)
      next
        case False
        with b Cons show ?thesis
          by (auto simp: Let_def of_char_int_less of_char_int_eq less_char_def)
      qed
    qed
  next
    case 2
    show ?case
    proof (cases t)
      case Nil
      then show ?thesis
        by (auto simp: Let_def of_char_int_less of_char_int_eq less_char_def NUL_def)
    next
      case (Cons b ts)
      with 2 have b: "b \<noteq> NUL" "c_tolower b = b" "lower_ext ts"
        by (simp_all add: lower_ext_Cons)
      show ?thesis
      proof (cases "c_tolower a = b")
        case True
        with b Cons Cons.IH(2) [OF b(3)] show ?thesis
          by (simp add: Let_def)
      next
        case False
        with b Cons show ?thesis
          by (auto simp: Let_def of_char_int_less of_char_int_eq less_char_def)
      qed
    qed
  next
    case 3
    show ?case
    proof (cases t)
      case Nil
      then show ?thesis
        by (auto simp: Let_def of_char_int_less of_char_int_eq less_char_def)
    next
      case (Cons b ts)
      with 3 have b: "b \<noteq> NUL" "c_tolower b = b" "lower_ext ts"
        by (simp_all add: lower_ext_Cons)
      show ?thesis
      proof (cases "c_tolower a = b")
        case True
        with b Cons Cons.IH(3) [OF b(3)] show ?thesis
          by (simp add: Let_def)
      next
        case False
        with b Cons show ?thesis
          by (auto simp: Let_def of_char_int_less of_char_int_eq less_char_def)
      qed
    qed
  }
qed

lemma typ_search_stop:
  "\<not> top_idx \<ge> bot_idx \<Longrightarrow> typ_search typ_tab x bot_idx top_idx = None"
  by (subst typ_search.simps) simp

text \<open>The three outcomes of one probe, read as the order of the folded key against the entry.\<close>

lemma typ_search_less:
  assumes "top_idx \<ge> bot_idx" and "lower_ext (ext (typ_tab ! nat ((top_idx + bot_idx) div 2)))"
    and "map c_tolower x < ext (typ_tab ! nat ((top_idx + bot_idx) div 2))"
  shows "typ_search typ_tab x bot_idx top_idx =
         typ_search typ_tab x bot_idx ((top_idx + bot_idx) div 2 - 1)"
proof -
  let ?t = "ext (typ_tab ! nat ((top_idx + bot_idx) div 2))"
  from strncasecmp_order(1) [OF assms(2), of x] assms(3)
  have "strncasecmp x ?t (length x) < 0 \<or> strncasecmp x ?t (length x) = 0 \<and> length x < length ?t"
    by simp
  with assms(1) show ?thesis
    by (subst typ_search.simps) (auto simp: Let_def)
qed

lemma typ_search_greater:
  assumes "top_idx \<ge> bot_idx" and "lower_ext (ext (typ_tab ! nat ((top_idx + bot_idx) div 2)))"
    and "ext (typ_tab ! nat ((top_idx + bot_idx) div 2)) < map c_tolower x"
  shows "typ_search typ_tab x bot_idx top_idx =
         typ_search typ_tab x ((top_idx + bot_idx) div 2 + 1) top_idx"
proof -
  let ?t = "ext (typ_tab ! nat ((top_idx + bot_idx) div 2))"
  from strncasecmp_order(2) [OF assms(2), of x] assms(3)
  have gt: "strncasecmp x ?t (length x) > 0 \<or> strncasecmp x ?t (length x) = 0 \<and> length x > length ?t"
    by simp
  from strncasecmp_order(1) [OF assms(2), of x] assms(3)
  have nlt: "\<not> (strncasecmp x ?t (length x) < 0 \<or> strncasecmp x ?t (length x) = 0 \<and> length x < length ?t)"
    by simp
  from assms(1) gt nlt show ?thesis
    by (subst typ_search.simps) (auto simp: Let_def)
qed

lemma typ_search_equal:
  assumes "top_idx \<ge> bot_idx" and "lower_ext (ext (typ_tab ! nat ((top_idx + bot_idx) div 2)))"
    and "map c_tolower x = ext (typ_tab ! nat ((top_idx + bot_idx) div 2))"
  shows "typ_search typ_tab x bot_idx top_idx = Some (typ_tab ! nat ((top_idx + bot_idx) div 2))"
proof -
  let ?t = "ext (typ_tab ! nat ((top_idx + bot_idx) div 2))"
  from strncasecmp_order(3) [OF assms(2), of x] assms(3)
  have "strncasecmp x ?t (length x) = 0 \<and> length x = length ?t"
    by blast
  then have r: "strncasecmp x ?t (length x) = 0"
    and l: "\<not> length x < length ?t" "\<not> length x > length ?t"
    by (blast, linarith, linarith)
  show ?thesis
    by (subst typ_search.simps) (simp add: Let_def assms(1) r l)
qed

lemma typ_search_find:
  assumes lower: "\<forall>e \<in> set typ_tab. lower_ext (ext e)"
    and sorted: "sorted_wrt (<) (map ext typ_tab)"
  shows "0 \<le> bot_idx \<Longrightarrow> top_idx < int (length typ_tab) \<Longrightarrow>
         (\<forall>i. i < nat bot_idx \<longrightarrow> i < length typ_tab \<longrightarrow> ext (typ_tab ! i) < map c_tolower x) \<Longrightarrow>
         (\<forall>i. nat (top_idx + 1) \<le> i \<longrightarrow> i < length typ_tab \<longrightarrow> map c_tolower x < ext (typ_tab ! i)) \<Longrightarrow>
         typ_search typ_tab x bot_idx top_idx = find (\<lambda>e. ext e = map c_tolower x) typ_tab"
proof (induction "nat (top_idx - bot_idx + 1)" arbitrary: bot_idx top_idx rule: less_induct)
  case less
  let ?k = "map c_tolower x"
  have nth_mono: "ext (typ_tab ! i) < ext (typ_tab ! j)" if "i < j" "j < length typ_tab" for i j
    using sorted that by (simp add: sorted_wrt_iff_nth_less)
  show ?case
  proof (cases "top_idx \<ge> bot_idx")
    case False
    have "\<not> (\<exists>e. e \<in> set typ_tab \<and> ext e = ?k)"
    proof
      assume "\<exists>e. e \<in> set typ_tab \<and> ext e = ?k"
      then obtain i where i: "i < length typ_tab" "ext (typ_tab ! i) = ?k"
        by (auto simp: in_set_conv_nth)
      from False less.prems(1) have "i < nat bot_idx \<or> nat (top_idx + 1) \<le> i"
        by linarith
      with i less.prems(3,4) show False by auto
    qed
    then have "find (\<lambda>e. ext e = ?k) typ_tab = None"
      by (simp add: find_None_iff)
    with False show ?thesis
      by (simp add: typ_search_stop)
  next
    case True
    let ?mid = "(top_idx + bot_idx) div 2"
    from True less.prems(1,2) have mid: "bot_idx \<le> ?mid" "?mid \<le> top_idx" "0 \<le> ?mid"
      "nat ?mid < length typ_tab"
      by linarith+
    then have lo: "lower_ext (ext (typ_tab ! nat ?mid))"
      using lower by simp
    consider (lt) "?k < ext (typ_tab ! nat ?mid)" | (gt) "ext (typ_tab ! nat ?mid) < ?k"
      | (eq) "?k = ext (typ_tab ! nat ?mid)"
      by fastforce
    then show ?thesis
    proof cases
      case lt
      have "typ_search typ_tab x bot_idx (?mid - 1) = find (\<lambda>e. ext e = ?k) typ_tab"
      proof (rule less.hyps)
        show "nat (?mid - 1 - bot_idx + 1) < nat (top_idx - bot_idx + 1)"
          using mid True by linarith
        show "0 \<le> bot_idx" by (rule less.prems(1))
        show "?mid - 1 < int (length typ_tab)"
          using mid less.prems(2) by linarith
        show "\<forall>i. i < nat bot_idx \<longrightarrow> i < length typ_tab \<longrightarrow> ext (typ_tab ! i) < ?k"
          by (rule less.prems(3))
        show "\<forall>i. nat (?mid - 1 + 1) \<le> i \<longrightarrow> i < length typ_tab \<longrightarrow> ?k < ext (typ_tab ! i)"
        proof (intro allI impI)
          fix i assume i: "nat (?mid - 1 + 1) \<le> i" "i < length typ_tab"
          show "?k < ext (typ_tab ! i)"
          proof (cases "i = nat ?mid")
            case True
            with lt show ?thesis by simp
          next
            case False
            with i have "nat ?mid < i" by simp
            from nth_mono [OF this i(2)] lt show ?thesis by simp
          qed
        qed
      qed
      then show ?thesis
        by (simp add: typ_search_less [OF True lo lt])
    next
      case gt
      have "typ_search typ_tab x (?mid + 1) top_idx = find (\<lambda>e. ext e = ?k) typ_tab"
      proof (rule less.hyps)
        show "nat (top_idx - (?mid + 1) + 1) < nat (top_idx - bot_idx + 1)"
          using mid True by linarith
        show "0 \<le> ?mid + 1" using mid by linarith
        show "top_idx < int (length typ_tab)" by (rule less.prems(2))
        show "\<forall>i. nat (top_idx + 1) \<le> i \<longrightarrow> i < length typ_tab \<longrightarrow> ?k < ext (typ_tab ! i)"
          by (rule less.prems(4))
        show "\<forall>i. i < nat (?mid + 1) \<longrightarrow> i < length typ_tab \<longrightarrow> ext (typ_tab ! i) < ?k"
        proof (intro allI impI)
          fix i assume i: "i < nat (?mid + 1)" "i < length typ_tab"
          show "ext (typ_tab ! i) < ?k"
          proof (cases "i = nat ?mid")
            case True
            with gt show ?thesis by simp
          next
            case False
            with i mid have "i < nat ?mid" by linarith
            from nth_mono [OF this mid(4)] gt show ?thesis by simp
          qed
        qed
      qed
      then show ?thesis
        by (simp add: typ_search_greater [OF True lo gt])
    next
      case eq
      have "find (\<lambda>e. ext e = ?k) typ_tab = Some (typ_tab ! nat ?mid)"
        unfolding find_Some_iff
      proof (intro exI conjI allI impI)
        show "nat ?mid < length typ_tab" by (rule mid(4))
        show "ext (typ_tab ! nat ?mid) = ?k" using eq by simp
        show "typ_tab ! nat ?mid = typ_tab ! nat ?mid" ..
        fix j assume "j < nat ?mid"
        from nth_mono [OF this mid(4)] eq show "ext (typ_tab ! j) \<noteq> ?k" by simp
      qed
      then show ?thesis
        by (simp add: typ_search_equal [OF True lo eq])
    qed
  qed
qed

lemma typ_linear_find:
  assumes "\<forall>e \<in> set typ_tab. lower_ext (ext e)"
  shows "typ_linear typ_tab x = find (\<lambda>e. ext e = map c_tolower x) typ_tab"
  unfolding typ_linear_def
proof (rule find_cong [OF refl])
  fix e assume "e \<in> set typ_tab"
  with assms have "lower_ext (ext e)" by blast
  from strncasecmp_order(3) [OF this, of x]
  show "ext_matches x e = (ext e = map c_tolower x)"
    unfolding ext_matches_def by auto
qed

lemma init_mime_sorted:
  assumes "distinct (map ext tab)"
  shows "sorted_wrt (<) (map ext (init_mime tab))"
proof -
  have "distinct (map ext (init_mime tab))"
    using assms by (simp add: init_mime_def distinct_map)
  moreover have "sorted (map ext (init_mime tab))"
    by (simp add: init_mime_def sorted_sort_key)
  ultimately show ?thesis
    by (simp add: strict_sorted_iff)
qed

text \<open>
  C9: for a type table with distinct lower-case extensions, sorted by \<^verbatim>\<open>init_mime\<close>,
  and every extension string \<open>x\<close> that \<^verbatim>\<open>figure_mime\<close> tests, the binary search (with
  its tie-break on the extension length) returns the entry that a linear scan of the same
  table with the case-insensitive comparison and the exact length test returns.
\<close>

theorem figure_mime_search_is_linear_scan:
  assumes "distinct (map ext tab)" and "list_all (\<lambda>e. lower_ext (ext e)) tab"
  shows "typ_search (init_mime tab) x 0 (int (length (init_mime tab)) - 1)
         = typ_linear (init_mime tab) x"
proof -
  have lower: "\<forall>e \<in> set (init_mime tab). lower_ext (ext e)"
    using assms(2) by (simp add: init_mime_def list_all_iff)
  have "typ_search (init_mime tab) x 0 (int (length (init_mime tab)) - 1)
        = find (\<lambda>e. ext e = map c_tolower x) (init_mime tab)"
    using lower init_mime_sorted [OF assms(1)] by (rule typ_search_find) simp_all
  also have "\<dots> = typ_linear (init_mime tab) x"
    using typ_linear_find [OF lower] by simp
  finally show ?thesis .
qed

definition example_typ_tab :: "mime_entry list" where
  "example_typ_tab = [\<lparr>ext = ''html'', val = ''text/html''\<rparr>, \<lparr>ext = ''css'', val = ''text/css''\<rparr>,
           \<lparr>ext = ''htm'', val = ''text/html''\<rparr>, \<lparr>ext = ''gz'', val = ''x''\<rparr>]"

theorem figure_mime_search_is_linear_scan_witness:
  "distinct (map ext example_typ_tab)
   \<and> list_all (\<lambda>e. lower_ext (ext e)) example_typ_tab
   \<and> typ_search (init_mime example_typ_tab) ''HTM'' 0 (int (length (init_mime example_typ_tab)) - 1)
       = Some \<lparr>ext = ''htm'', val = ''text/html''\<rparr>
   \<and> typ_linear (init_mime example_typ_tab) ''HTM'' = Some \<lparr>ext = ''htm'', val = ''text/html''\<rparr>"
proof -
  have d: "distinct (map ext example_typ_tab)"
    by (simp add: example_typ_tab_def)
  have l: "list_all (\<lambda>e. lower_ext (ext e)) example_typ_tab"
    by code_simp
  have s: "typ_linear (init_mime example_typ_tab) ''HTM'' = Some \<lparr>ext = ''htm'', val = ''text/html''\<rparr>"
    by code_simp
  from figure_mime_search_is_linear_scan [OF d l, of "''HTM''"] d l s show ?thesis
    by simp
qed

section \<open>The connection, the response and send_mime (libhttpd.c, lines 604-745)\<close>

unbundle bit_operations_syntax

text \<open>
  The fields of \<^verbatim>\<open>struct httpd_conn\<close> and \<^verbatim>\<open>struct httpd_server\<close> (declared in
  \<^verbatim>\<open>libhttpd.h\<close>) that the functions below read or write. \<^verbatim>\<open>time_t\<close> and
  \<^verbatim>\<open>off_t\<close> values are integers, \<^verbatim>\<open>(time_t)-1\<close> is \<open>- 1\<close>. \<^verbatim>\<open>hc->type\<close> is the field
  \<open>mime_type\<close>; \<^verbatim>\<open>file_address\<close> holds the mapped bytes, \<open>None\<close> for NULL.
\<close>

datatype http_method =
  METHOD_UNKNOWN | METHOD_GET | METHOD_HEAD | METHOD_POST | METHOD_PUT
  | METHOD_DELETE | METHOD_CONNECT | METHOD_OPTIONS | METHOD_TRACE

datatype compression = COMPRESSION_NONE | COMPRESSION_GZIP

record stat =
  st_mode :: "32 word"
  st_size :: int
  st_mtime :: int

record httpd_server =
  vhost :: bool
  global_passwd :: bool
  max_age :: int
  charset :: string

text \<open>
  The response buffer. \<^verbatim>\<open>add_response\<close> appends text to \<^verbatim>\<open>hc->response\<close>; the model
  keeps the header lines as items, one per line that \<^verbatim>\<open>send_mime\<close> formats, with the
  values that the format receives. \<open>Hdr_etag bytes len\<close> is the ETag line over the MD5
  digest of \<open>len\<close> bytes at \<^verbatim>\<open>file_address\<close>; \<open>Hdr_content_type typ cs\<close> is the type format
  with the server's charset; \<open>Error_page\<close> is the HTML body of \<^verbatim>\<open>send_response\<close>.
\<close>

datatype resp_item =
    Status_line string int string
  | Hdr_date int
  | Hdr_server
  | Hdr_last_modified int
  | Hdr_accept_ranges
  | Hdr_content_range int int int
  | Hdr_content_length int
  | Hdr_content_type string string
  | Hdr_content_encoding string
  | Hdr_cache_no_cache
  | Hdr_cache_max_age int
  | Hdr_etag string int
  | Hdr_connection bool
  | Extra_heads string
  | End_of_headers
  | Error_page int string string string

record httpd_conn =
  hs :: httpd_server
  client_addr :: "32 word"
  real_ip :: string
  "method" :: http_method
  status :: int
  bytes_to_send :: int
  encodedurl :: string
  protocol :: string
  expnfilename :: string
  encodings :: string
  referer :: string
  useragent :: string
  accept :: string
  accepte :: string
  acceptl :: string
  cookie :: string
  contenttype :: string
  hdrhost :: string
  hostdir :: string
  authorization :: string
  remoteuser :: string
  response :: "resp_item list"
  if_modified_since :: int
  range_if :: int
  contentlength :: int
  mime_type :: string
  mime_flag :: bool
  got_range :: bool
  first_byte_index :: int
  last_byte_index :: int
  keep_alive :: bool
  do_keep_alive :: int
  should_linger :: bool
  sb :: stat
  file_address :: "string option"
  compression_type :: compression
  has_deflate :: bool
  accesspath :: string
  authpath :: string
  maxprevauthpath :: nat
  prevauthpath :: string
  prevuser :: string
  prevcryp :: string

definition ok200title :: string where "ok200title = ''OK''"
definition ok206title :: string where "ok206title = ''Partial Content''"
definition err304title :: string where "err304title = ''Not Modified''"
definition err401title :: string where "err401title = ''Unauthorized''"
definition err403title :: string where "err403title = ''Forbidden''"
definition err404title :: string where "err404title = ''Not Found''"
definition err500title :: string where "err500title = ''Internal Error''"

definition add_response :: "httpd_conn \<Rightarrow> resp_item list \<Rightarrow> httpd_conn" where
  "add_response hc items = hc\<lparr>response := response hc @ items\<rparr>"

text \<open>\<^verbatim>\<open>content_encoding\<close> (lines 604-620): the Content-Encoding line, if any.\<close>

definition content_encoding :: "httpd_conn \<Rightarrow> string \<Rightarrow> resp_item list" where
  "content_encoding hc encs =
     (let gz = (compression_type hc = COMPRESSION_GZIP);
          hasenc = (encs \<noteq> []);
          addgz = (hasenc \<and> gz \<and> strstr encs ''gzip'' = None)
      in if hasenc then [Hdr_content_encoding (encs @ (if addgz then '', gzip'' else []))]
         else if gz then [Hdr_content_encoding ''gzip'']
         else [])"

text \<open>The condition under which \<^verbatim>\<open>send_mime\<close> turns a 200 into a 206.\<close>

definition partial_content_elected :: "httpd_conn \<Rightarrow> int \<Rightarrow> int \<Rightarrow> bool" where
  "partial_content_elected hc st len \<longleftrightarrow>
     st = 200 \<and> got_range hc
     \<and> last_byte_index hc \<ge> first_byte_index hc
     \<and> (last_byte_index hc \<noteq> len - 1 \<or> first_byte_index hc \<noteq> 0)
     \<and> (range_if hc = - 1 \<or> range_if hc = st_mtime (sb hc))"

text \<open>
  Lines 672-692 of \<^verbatim>\<open>send_mime\<close>: Content-Range and Content-Length of a partial
  response, or the Content-Length of an uncompressed response of known length.
\<close>

definition length_headers :: "httpd_conn \<Rightarrow> bool \<Rightarrow> int \<Rightarrow> resp_item list" where
  "length_headers hc partial_content len =
     (if partial_content
      then [Hdr_content_range (first_byte_index hc) (last_byte_index hc) len,
            Hdr_content_length (last_byte_index hc - first_byte_index hc + 1)]
      else if len \<ge> 0
      then (if compression_type hc = COMPRESSION_NONE then [Hdr_content_length len] else [])
      else [])"

text \<open>
  Lines 700-733 of \<^verbatim>\<open>send_mime\<close>: \<^verbatim>\<open>Cache-Control: no-cache,no-store\<close> outside 2xx and
  3xx; \<^verbatim>\<open>etagbuf\<close> is filled when \<^verbatim>\<open>hc->file_address\<close> is set and is written only
  behind the \<^verbatim>\<open>max-age\<close> line, under \<^verbatim>\<open>hc->hs->max_age >= 0\<close>.
\<close>

definition cache_headers :: "httpd_conn \<Rightarrow> int \<Rightarrow> int \<Rightarrow> resp_item list" where
  "cache_headers hc st len =
     (let s100 = st div 100;
          etagbuf = (case file_address hc of None \<Rightarrow> [] | Some bytes \<Rightarrow> [Hdr_etag bytes len])
      in (if s100 \<noteq> 2 \<and> s100 \<noteq> 3 then [Hdr_cache_no_cache] else [])
         @ (if max_age (hs hc) \<ge> 0 then Hdr_cache_max_age (max_age (hs hc)) # etagbuf else []))"

text \<open>\<^verbatim>\<open>send_mime\<close>; \<open>now\<close> is the value of \<^verbatim>\<open>time(NULL)\<close>.\<close>

definition send_mime ::
  "int \<Rightarrow> httpd_conn \<Rightarrow> int \<Rightarrow> string \<Rightarrow> string \<Rightarrow> string \<Rightarrow> string \<Rightarrow> int \<Rightarrow> int
   \<Rightarrow> httpd_conn" where
  "send_mime now hc st title encs extraheads typ len modt =
     (let hc1 = (if st \<noteq> 200 then hc\<lparr>compression_type := COMPRESSION_NONE\<rparr> else hc);
          hc2 = hc1\<lparr>status := st, bytes_to_send := len\<rparr>
      in if \<not> mime_flag hc2 then hc2
         else
           let partial_content = partial_content_elected hc2 st len;
               hc3 = (if partial_content
                      then hc2\<lparr>status := 206, compression_type := COMPRESSION_NONE\<rparr>
                      else hc2\<lparr>got_range := False\<rparr>);
               st' = (if partial_content then 206 else st);
               title' = (if partial_content then ok206title else title);
               mod' = (if modt = 0 then now else modt)
           in add_response hc3
                ([Status_line (take 20 (protocol hc3)) st' title', Hdr_date now, Hdr_server,
                  Hdr_last_modified mod', Hdr_accept_ranges]
                 @ length_headers hc3 partial_content len
                 @ [Hdr_content_type typ (charset (hs hc3))]
                 @ content_encoding hc3 encs
                 @ cache_headers hc3 st' len
                 @ [Hdr_connection (do_keep_alive hc3 \<noteq> 0)]
                 @ (if extraheads \<noteq> [] then [Extra_heads extraheads] else [])
                 @ [End_of_headers]))"

section \<open>The end of really_start_request (libhttpd.c, lines 3965-4023 and 4233-4260)\<close>

definition S_IROTH :: "32 word" where "S_IROTH = 4"
definition S_IXOTH :: "32 word" where "S_IXOTH = 1"

text \<open>
  What the code asks of the system and of the build: the clock, \<^verbatim>\<open>stat\<close>, the file
  mapping cache (\<^verbatim>\<open>mmc_map\<close>, \<open>None\<close> for NULL) and the two MIME tables.
\<close>

record environment =
  time_now :: int
  stat_file :: "string \<Rightarrow> stat option"
  mmc_map :: "string \<Rightarrow> string option"
  enc_tab :: "mime_entry list"
  typ_tab :: "mime_entry list"

definition httpd_err400title :: string where "httpd_err400title = ''Bad Request''"
definition httpd_err400form :: string where
  "httpd_err400form = ''Your request has bad syntax(%s) or is inherently impossible to satisfy.\<newline>''"

definition err404form :: string where
  "err404form = ''The requested URL '%s' was not found on this server.\<newline>''"
definition err500form :: string where
  "err500form = ''There was an unusual problem serving the requested URL '%s'.\<newline>''"

text \<open>
  \<^verbatim>\<open>send_response\<close> (lines 776-811) and \<^verbatim>\<open>httpd_send_err\<close> (lines 904-926, the build
  without \<^verbatim>\<open>ERR_DIR\<close>; with it the body may come from an \<^verbatim>\<open>err<code>.html\<close> file, behind
  the same call of \<^verbatim>\<open>send_mime\<close>).
\<close>

definition send_response ::
  "int \<Rightarrow> httpd_conn \<Rightarrow> int \<Rightarrow> string \<Rightarrow> string \<Rightarrow> string \<Rightarrow> string \<Rightarrow> httpd_conn" where
  "send_response now hc st title extraheads form arg =
     add_response
       (send_mime now hc st title [] extraheads ''text/html; charset=%s'' (- 1) 0)
       [Error_page st title form (defang arg 1000)]"

definition httpd_send_err ::
  "int \<Rightarrow> httpd_conn \<Rightarrow> int \<Rightarrow> string \<Rightarrow> string \<Rightarrow> string \<Rightarrow> string \<Rightarrow> httpd_conn" where
  "httpd_send_err now hc st title extraheads form arg =
     send_response now hc st title extraheads form arg"

text \<open>
  \<^verbatim>\<open>figure_mime\<close> (lines 2854-2925). \<open>scan_dot\<close> is the inner loop
  \<^verbatim>\<open>for (dot = prev_dot - 1; dot >= hc->expnfilename && *dot != '.'; --dot)\<close>, as
  \<^verbatim>\<open>dot + 1\<close>, with \<open>0\<close> for "no dot found"; \<open>enc_search\<close> is the linear search of the
  encodings table; \<open>peel_extensions\<close> is the outer loop, which ends at the first type hit.
\<close>

fun scan_dot :: "string \<Rightarrow> nat \<Rightarrow> nat" where
  "scan_dot fn 0 = 0"
| "scan_dot fn (Suc j) = (if fn ! j = CHR ''.'' then Suc j else scan_dot fn j)"

lemma scan_dot_le: "scan_dot fn i \<le> i"
  by (induction i) auto

fun enc_search :: "mime_entry list \<Rightarrow> string \<Rightarrow> nat \<Rightarrow> nat option" where
  "enc_search [] x i = None"
| "enc_search (e # es) x i = (if ext_matches x e then Some i else enc_search es x (Suc i))"

function peel_extensions ::
  "mime_entry list \<Rightarrow> mime_entry list \<Rightarrow> string \<Rightarrow> nat \<Rightarrow> nat list \<Rightarrow> string option \<times> nat list" where
  "peel_extensions encs typs fn prev_dot me_indexes =
     (let d = scan_dot fn prev_dot in
      if d = 0 then (None, me_indexes)
      else
        let x = take (prev_dot - d) (drop d fn);
            me_indexes' =
              (case enc_search encs x 0 of
                 None \<Rightarrow> me_indexes
               | Some i \<Rightarrow> if length me_indexes < 100 then me_indexes @ [i] else me_indexes)
        in case typ_search typs x 0 (int (length typs) - 1) of
             Some e \<Rightarrow> (Some (val e), me_indexes')
           | None \<Rightarrow> peel_extensions encs typs fn (d - 1) me_indexes')"
  by pat_completeness auto
termination
proof (relation "measure (\<lambda>(encs, typs, fn, prev_dot, me). prev_dot)")
  show "wf (measure (\<lambda>(encs, typs, fn, prev_dot, me). prev_dot))" by simp
next
  fix encs typs :: "mime_entry list" and fn :: string and prev_dot d :: nat
    and me_indexes x2 :: "nat list" and x :: string
  assume "d = scan_dot fn prev_dot" "d \<noteq> 0"
  moreover have "scan_dot fn prev_dot \<le> prev_dot" by (rule scan_dot_le)
  ultimately show "((encs, typs, fn, d - 1, x2), (encs, typs, fn, prev_dot, me_indexes))
      \<in> measure (\<lambda>(encs, typs, fn, prev_dot, me). prev_dot)"
    by simp
qed

declare peel_extensions.simps [simp del]

text \<open>The loop behind \<^verbatim>\<open>done:\<close>, which writes \<^verbatim>\<open>hc->encodings\<close>.\<close>

fun join_encodings :: "mime_entry list \<Rightarrow> nat list \<Rightarrow> string \<Rightarrow> string" where
  "join_encodings encs [] acc = acc"
| "join_encodings encs (i # is) acc =
     join_encodings encs is ((if acc \<noteq> [] then acc @ '','' else acc) @ val (encs ! i))"

definition default_type :: string where
  "default_type = ''text/plain; charset=%s''"

definition figure_mime :: "environment \<Rightarrow> httpd_conn \<Rightarrow> httpd_conn" where
  "figure_mime env hc =
     (case peel_extensions (enc_tab env) (typ_tab env) (expnfilename hc)
             (length (expnfilename hc)) [] of
        (t, me_indexes) \<Rightarrow>
          hc\<lparr>mime_type := (case t of None \<Rightarrow> default_type | Some v \<Rightarrow> v),
             encodings := join_encodings (enc_tab env) (rev me_indexes) []\<rparr>)"

text \<open>\<^verbatim>\<open>strrchr\<close>: the offset of the last occurrence of a byte.\<close>

definition strrchr :: "string \<Rightarrow> char \<Rightarrow> nat option" where
  "strrchr s c = (if c \<in> set s then Some (length s - 1 - length (takeWhile (\<lambda>x. x \<noteq> c) (rev s))) else None)"

definition vary_suffixes :: "string list" where
  "vary_suffixes = [''.js'', ''.css'', ''.xml'', ''.gz'', ''.html'']"

text \<open>
  \<^verbatim>\<open>mod_headers\<close> (lines 3965-4023) in its three steps: the substitution of a
  \<^verbatim>\<open>.gz\<close> sibling (which overwrites \<^verbatim>\<open>hc->sb.st_size\<close>), the part behind \<^verbatim>\<open>done:\<close>
  that may switch compression off, and the choice of the \<^verbatim>\<open>Vary\<close> header. The result
  is \<open>None\<close> where the C code passes a NULL \<^verbatim>\<open>fn\<close> to \<^verbatim>\<open>strcmp\<close>.
\<close>

definition mod_headers_gz :: "environment \<Rightarrow> httpd_conn \<Rightarrow> httpd_conn" where
  "mod_headers_gz env hc =
     (if compression_type hc \<noteq> COMPRESSION_GZIP then hc
      else
        let fn = expnfilename hc @ ''.gz'' in
        case stat_file env fn of
          None \<Rightarrow> hc
        | Some st \<Rightarrow>
            if st_mode st AND (S_IROTH OR S_IXOTH) \<noteq> 0 \<and> st_mtime st \<ge> st_mtime (sb hc)
               \<and> encodings hc = []
            then hc\<lparr>expnfilename := fn, sb := (sb hc)\<lparr>st_size := st_size st\<rparr>,
                    compression_type := COMPRESSION_NONE, encodings := ''gzip''\<rparr>
            else hc)"

definition mod_headers_done :: "httpd_conn \<Rightarrow> httpd_conn" where
  "mod_headers_done hc =
     (if \<not> has_deflate hc then hc\<lparr>compression_type := COMPRESSION_NONE\<rparr>
      else if \<not> prefix ''text/'' (mime_type hc) \<and> mime_type hc \<noteq> ''application/javascript''
        then hc\<lparr>compression_type := COMPRESSION_NONE\<rparr>
      else if st_size (sb hc) < 256 then hc\<lparr>compression_type := COMPRESSION_NONE\<rparr>
      else hc)"

definition mod_headers :: "environment \<Rightarrow> httpd_conn \<Rightarrow> (string \<times> httpd_conn) option" where
  "mod_headers env hc =
     (let hc2 = mod_headers_done (mod_headers_gz env hc)
      in case strrchr (expnfilename hc2) (CHR ''.'') of
           None \<Rightarrow> if strstr (encodings hc2) ''gzip'' \<noteq> None then None else Some ([], hc2)
         | Some i \<Rightarrow>
             Some (if drop i (expnfilename hc2) \<in> set vary_suffixes
                   then ''Vary: Accept-Encoding'' @ [CHR 0x0D, CHR 0x0A] else [], hc2))"

text \<open>
  Lines 4233-4235: \<^verbatim>\<open>if (hc->got_range && (hc->last_byte_index == -1 ||
  hc->last_byte_index >= hc->sb.st_size)) hc->last_byte_index = hc->sb.st_size - 1;\<close>
\<close>

definition fill_last_byte_index :: "httpd_conn \<Rightarrow> httpd_conn" where
  "fill_last_byte_index hc =
     (if got_range hc \<and> (last_byte_index hc = - 1 \<or> last_byte_index hc \<ge> st_size (sb hc))
      then hc\<lparr>last_byte_index := st_size (sb hc) - 1\<rparr> else hc)"

text \<open>\<^verbatim>\<open>hc->if_modified_since != (time_t)-1 && hc->if_modified_since >= hc->sb.st_mtime\<close>\<close>

definition not_modified_since :: "httpd_conn \<Rightarrow> bool" where
  "not_modified_since hc \<longleftrightarrow>
     if_modified_since hc \<noteq> - 1 \<and> if_modified_since hc \<ge> st_mtime (sb hc)"

text \<open>
  Lines 4233-4260 of \<^verbatim>\<open>really_start_request\<close>, from the clamp of
  \<^verbatim>\<open>last_byte_index\<close> to \<^verbatim>\<open>return 0\<close>: a HEAD request sends the headers, a request that
  is not modified sends 304, any other maps the file and sends the headers. \<open>is_icon\<close> is
  the local variable set by \<^verbatim>\<open>mmc_icon_check\<close> earlier in the function.
\<close>

definition really_start_request_send ::
  "environment \<Rightarrow> bool \<Rightarrow> httpd_conn \<Rightarrow> (int \<times> httpd_conn) option" where
  "really_start_request_send env is_icon hc =
     (let hc1 = fill_last_byte_index hc;
          hc2 = figure_mime env hc1
      in if method hc2 = METHOD_HEAD then
           (case mod_headers env hc2 of
              None \<Rightarrow> None
            | Some (extra, hc3) \<Rightarrow>
                Some (0, send_mime (time_now env) hc3 200 ok200title (encodings hc3) extra
                           (mime_type hc3) (st_size (sb hc3)) (st_mtime (sb hc3))))
         else if not_modified_since hc2 then
           Some (0, send_mime (time_now env) hc2 304 err304title (encodings hc2) []
                      (mime_type hc2) (- 1) (st_mtime (sb hc2)))
         else
           (case mod_headers env hc2 of
              None \<Rightarrow> None
            | Some (extra, hc3) \<Rightarrow>
                let hc4 = hc3\<lparr>file_address := mmc_map env (expnfilename hc3)\<rparr> in
                if file_address hc4 = None then
                  (if is_icon
                   then Some (- 1, httpd_send_err (time_now env) hc4 404 err404title [] err404form
                                     (encodedurl hc4))
                   else Some (- 1, httpd_send_err (time_now env) hc4 500 err500title [] err500form
                                     (encodedurl hc4)))
                else
                  Some (0, send_mime (time_now env) hc4 200 ok200title (encodings hc4) extra
                             (mime_type hc4) (st_size (sb hc4)) (st_mtime (sb hc4)))))"

text \<open>\<^verbatim>\<open>httpd_init_conn_content\<close> (lines 2002-2052), on the fields of the model.\<close>

definition httpd_init_conn_content :: "httpd_conn \<Rightarrow> httpd_conn" where
  "httpd_init_conn_content hc =
     hc\<lparr>method := METHOD_UNKNOWN, status := 0, bytes_to_send := 0, encodedurl := [],
        protocol := ''UNKNOWN'', expnfilename := [], encodings := [], referer := [],
        useragent := [], accept := [], accepte := [], acceptl := [], cookie := [],
        contenttype := [], hdrhost := [], hostdir := [], authorization := [], remoteuser := [],
        response := [], if_modified_since := - 1, range_if := - 1, contentlength := 0,
        mime_type := [], mime_flag := True, got_range := False, first_byte_index := 0,
        last_byte_index := - 1, keep_alive := False, do_keep_alive := 0, should_linger := False,
        file_address := None, compression_type := COMPRESSION_NONE\<rparr>"

fun is_etag :: "resp_item \<Rightarrow> bool" where
  "is_etag (Hdr_etag b n) = True"
| "is_etag _ = False"

definition has_etag :: "httpd_conn \<Rightarrow> bool" where
  "has_etag hc = list_ex is_etag (response hc)"

lemma has_etag_add_response:
  "has_etag (add_response hc items) \<longleftrightarrow> has_etag hc \<or> list_ex is_etag items"
  by (auto simp: has_etag_def add_response_def list_ex_iff)

lemma has_etag_updates [simp]:
  "has_etag (hc\<lparr>compression_type := c\<rparr>) = has_etag hc"
  "has_etag (hc\<lparr>status := s\<rparr>) = has_etag hc"
  "has_etag (hc\<lparr>bytes_to_send := n\<rparr>) = has_etag hc"
  "has_etag (hc\<lparr>got_range := g\<rparr>) = has_etag hc"
  "has_etag (hc\<lparr>last_byte_index := l\<rparr>) = has_etag hc"
  "has_etag (hc\<lparr>file_address := f\<rparr>) = has_etag hc"
  by (simp_all add: has_etag_def)

lemma list_ex_content_encoding [simp]: "\<not> list_ex is_etag (content_encoding hc encs)"
  by (simp add: content_encoding_def Let_def)

lemma list_ex_length_headers [simp]: "\<not> list_ex is_etag (length_headers hc p len)"
  by (simp add: length_headers_def)

lemma list_ex_cache_headers:
  "list_ex is_etag (cache_headers hc st len) \<longleftrightarrow> file_address hc \<noteq> None \<and> max_age (hs hc) \<ge> 0"
  by (simp add: cache_headers_def Let_def split: option.splits)

lemma send_mime_etag:
  "has_etag (send_mime now hc st title encs extraheads typ len modt) \<longleftrightarrow>
     has_etag hc \<or> (mime_flag hc \<and> file_address hc \<noteq> None \<and> max_age (hs hc) \<ge> 0)"
  by (simp add: send_mime_def Let_def has_etag_add_response list_ex_cache_headers)

text \<open>What figure_mime and mod_headers leave alone.\<close>

lemma figure_mime_fields [simp]:
  "file_address (figure_mime env hc) = file_address hc"
  "response (figure_mime env hc) = response hc"
  "method (figure_mime env hc) = method hc"
  "if_modified_since (figure_mime env hc) = if_modified_since hc"
  "sb (figure_mime env hc) = sb hc"
  "got_range (figure_mime env hc) = got_range hc"
  "first_byte_index (figure_mime env hc) = first_byte_index hc"
  "last_byte_index (figure_mime env hc) = last_byte_index hc"
  "range_if (figure_mime env hc) = range_if hc"
  "mime_flag (figure_mime env hc) = mime_flag hc"
  "hs (figure_mime env hc) = hs hc"
  "compression_type (figure_mime env hc) = compression_type hc"
  "expnfilename (figure_mime env hc) = expnfilename hc"
  "encodedurl (figure_mime env hc) = encodedurl hc"
  by (simp_all add: figure_mime_def split: prod.splits)

text \<open>The condition under which \<^verbatim>\<open>mod_headers\<close> serves the \<^verbatim>\<open>.gz\<close> sibling.\<close>

definition gz_sibling_served :: "environment \<Rightarrow> httpd_conn \<Rightarrow> bool" where
  "gz_sibling_served env hc \<longleftrightarrow>
     compression_type hc = COMPRESSION_GZIP
     \<and> (case stat_file env (expnfilename hc @ ''.gz'') of
          None \<Rightarrow> False
        | Some st \<Rightarrow> st_mode st AND (S_IROTH OR S_IXOTH) \<noteq> 0 \<and> st_mtime st \<ge> st_mtime (sb hc)
                     \<and> encodings hc = [])"

lemma mod_headers_gz_fields [simp]:
  "file_address (mod_headers_gz env hc) = file_address hc"
  "response (mod_headers_gz env hc) = response hc"
  "method (mod_headers_gz env hc) = method hc"
  "if_modified_since (mod_headers_gz env hc) = if_modified_since hc"
  "st_mtime (sb (mod_headers_gz env hc)) = st_mtime (sb hc)"
  "got_range (mod_headers_gz env hc) = got_range hc"
  "first_byte_index (mod_headers_gz env hc) = first_byte_index hc"
  "last_byte_index (mod_headers_gz env hc) = last_byte_index hc"
  "range_if (mod_headers_gz env hc) = range_if hc"
  "mime_flag (mod_headers_gz env hc) = mime_flag hc"
  "hs (mod_headers_gz env hc) = hs hc"
  "encodedurl (mod_headers_gz env hc) = encodedurl hc"
  by (simp_all add: mod_headers_gz_def Let_def split: option.splits)

lemma mod_headers_done_fields [simp]:
  "file_address (mod_headers_done hc) = file_address hc"
  "response (mod_headers_done hc) = response hc"
  "method (mod_headers_done hc) = method hc"
  "if_modified_since (mod_headers_done hc) = if_modified_since hc"
  "sb (mod_headers_done hc) = sb hc"
  "got_range (mod_headers_done hc) = got_range hc"
  "first_byte_index (mod_headers_done hc) = first_byte_index hc"
  "last_byte_index (mod_headers_done hc) = last_byte_index hc"
  "range_if (mod_headers_done hc) = range_if hc"
  "mime_flag (mod_headers_done hc) = mime_flag hc"
  "hs (mod_headers_done hc) = hs hc"
  "encodedurl (mod_headers_done hc) = encodedurl hc"
  "expnfilename (mod_headers_done hc) = expnfilename hc"
  by (simp_all add: mod_headers_done_def)

lemma mod_headers_gz_same_file:
  "\<not> gz_sibling_served env hc \<Longrightarrow> sb (mod_headers_gz env hc) = sb hc"
  "\<not> gz_sibling_served env hc \<Longrightarrow> expnfilename (mod_headers_gz env hc) = expnfilename hc"
  by (auto simp: mod_headers_gz_def gz_sibling_served_def Let_def split: option.splits)

lemma mod_headers_Some:
  "mod_headers env hc = Some (extra, hc') \<Longrightarrow> hc' = mod_headers_done (mod_headers_gz env hc)"
  by (simp add: mod_headers_def Let_def split: option.splits if_splits)

fun is_content_range :: "resp_item \<Rightarrow> bool" where
  "is_content_range (Hdr_content_range f l t) = True"
| "is_content_range _ = False"

fun is_content_length :: "resp_item \<Rightarrow> bool" where
  "is_content_length (Hdr_content_length n) = True"
| "is_content_length _ = False"

lemma partial_content_elected_updates [simp]:
  "partial_content_elected (hc\<lparr>status := s\<rparr>) st len = partial_content_elected hc st len"
  "partial_content_elected (hc\<lparr>bytes_to_send := b\<rparr>) st len = partial_content_elected hc st len"
  by (simp_all add: partial_content_elected_def)

lemma filter_range_content_encoding [simp]:
  "filter is_content_range (content_encoding hc encs) = []"
  "filter is_content_length (content_encoding hc encs) = []"
  by (simp_all add: content_encoding_def Let_def)

lemma filter_range_cache_headers [simp]:
  "filter is_content_range (cache_headers hc st len) = []"
  "filter is_content_length (cache_headers hc st len) = []"
  by (simp_all add: cache_headers_def Let_def split: option.splits)

lemma send_mime_partial:
  assumes "mime_flag hc" and "partial_content_elected hc 200 len"
  shows "status (send_mime now hc 200 title encs extraheads typ len modt) = 206"
    and "got_range (send_mime now hc 200 title encs extraheads typ len modt)"
    and "filter is_content_range (response (send_mime now hc 200 title encs extraheads typ len modt))
         = filter is_content_range (response hc)
           @ [Hdr_content_range (first_byte_index hc) (last_byte_index hc) len]"
    and "filter is_content_length (response (send_mime now hc 200 title encs extraheads typ len modt))
         = filter is_content_length (response hc)
           @ [Hdr_content_length (last_byte_index hc - first_byte_index hc + 1)]"
proof -
  from assms(2) have g: "got_range hc"
    by (simp add: partial_content_elected_def)
  show "status (send_mime now hc 200 title encs extraheads typ len modt) = 206"
    using assms by (simp add: send_mime_def Let_def add_response_def)
  show "got_range (send_mime now hc 200 title encs extraheads typ len modt)"
    using assms g by (simp add: send_mime_def Let_def add_response_def)
  show "filter is_content_range (response (send_mime now hc 200 title encs extraheads typ len modt))
         = filter is_content_range (response hc)
           @ [Hdr_content_range (first_byte_index hc) (last_byte_index hc) len]"
    using assms by (simp add: send_mime_def Let_def add_response_def length_headers_def)
  show "filter is_content_length (response (send_mime now hc 200 title encs extraheads typ len modt))
         = filter is_content_length (response hc)
           @ [Hdr_content_length (last_byte_index hc - first_byte_index hc + 1)]"
    using assms by (simp add: send_mime_def Let_def add_response_def length_headers_def)
qed

lemma send_mime_full:
  assumes "mime_flag hc" and "\<not> partial_content_elected hc 200 len"
  shows "status (send_mime now hc 200 title encs extraheads typ len modt) = 200"
    and "\<not> got_range (send_mime now hc 200 title encs extraheads typ len modt)"
    and "bytes_to_send (send_mime now hc 200 title encs extraheads typ len modt) = len"
    and "filter is_content_range (response (send_mime now hc 200 title encs extraheads typ len modt))
         = filter is_content_range (response hc)"
proof -
  show "status (send_mime now hc 200 title encs extraheads typ len modt) = 200"
    using assms by (simp add: send_mime_def Let_def add_response_def)
  show "\<not> got_range (send_mime now hc 200 title encs extraheads typ len modt)"
    using assms by (simp add: send_mime_def Let_def add_response_def)
  show "bytes_to_send (send_mime now hc 200 title encs extraheads typ len modt) = len"
    using assms by (simp add: send_mime_def Let_def add_response_def)
  show "filter is_content_range (response (send_mime now hc 200 title encs extraheads typ len modt))
         = filter is_content_range (response hc)"
    using assms by (simp add: send_mime_def Let_def add_response_def length_headers_def)
qed

lemma fill_last_byte_index_fields [simp]:
  "file_address (fill_last_byte_index hc) = file_address hc"
  "response (fill_last_byte_index hc) = response hc"
  "method (fill_last_byte_index hc) = method hc"
  "if_modified_since (fill_last_byte_index hc) = if_modified_since hc"
  "sb (fill_last_byte_index hc) = sb hc"
  "got_range (fill_last_byte_index hc) = got_range hc"
  "first_byte_index (fill_last_byte_index hc) = first_byte_index hc"
  "range_if (fill_last_byte_index hc) = range_if hc"
  "mime_flag (fill_last_byte_index hc) = mime_flag hc"
  "hs (fill_last_byte_index hc) = hs hc"
  "compression_type (fill_last_byte_index hc) = compression_type hc"
  "expnfilename (fill_last_byte_index hc) = expnfilename hc"
  "encodings (fill_last_byte_index hc) = encodings hc"
  by (simp_all add: fill_last_byte_index_def)

text \<open>
  The connection state that the 200 calls of \<^verbatim>\<open>send_mime\<close> at the end of
  \<^verbatim>\<open>really_start_request\<close> receive: after the clamp, \<^verbatim>\<open>figure_mime\<close> and
  \<^verbatim>\<open>mod_headers\<close>.
\<close>

definition send_state :: "environment \<Rightarrow> httpd_conn \<Rightarrow> httpd_conn" where
  "send_state env hc = mod_headers_done (mod_headers_gz env (figure_mime env (fill_last_byte_index hc)))"

lemma send_state_fields [simp]:
  "file_address (send_state env hc) = file_address hc"
  "response (send_state env hc) = response hc"
  "method (send_state env hc) = method hc"
  "if_modified_since (send_state env hc) = if_modified_since hc"
  "st_mtime (sb (send_state env hc)) = st_mtime (sb hc)"
  "got_range (send_state env hc) = got_range hc"
  "first_byte_index (send_state env hc) = first_byte_index hc"
  "last_byte_index (send_state env hc) = last_byte_index (fill_last_byte_index hc)"
  "range_if (send_state env hc) = range_if hc"
  "mime_flag (send_state env hc) = mime_flag hc"
  "hs (send_state env hc) = hs hc"
  by (simp_all add: send_state_def)

lemma send_state_same_file:
  "\<not> gz_sibling_served env (figure_mime env (fill_last_byte_index hc)) \<Longrightarrow>
   sb (send_state env hc) = sb hc"
  by (simp add: send_state_def mod_headers_gz_same_file)

lemma not_modified_since_figure_mime [simp]:
  "not_modified_since (figure_mime env (fill_last_byte_index hc)) = not_modified_since hc"
  by (simp add: not_modified_since_def)

lemma really_start_request_send_HEAD:
  assumes "method hc = METHOD_HEAD" and "really_start_request_send env is_icon hc = Some (rc, hc')"
  shows "\<exists>extra. rc = 0 \<and> hc' = send_mime (time_now env) (send_state env hc) 200 ok200title
           (encodings (send_state env hc)) extra (mime_type (send_state env hc))
           (st_size (sb (send_state env hc))) (st_mtime (sb (send_state env hc)))"
proof -
  from assms obtain extra hc3
    where m: "mod_headers env (figure_mime env (fill_last_byte_index hc)) = Some (extra, hc3)"
      and r: "rc = 0" "hc' = send_mime (time_now env) hc3 200 ok200title (encodings hc3) extra
                 (mime_type hc3) (st_size (sb hc3)) (st_mtime (sb hc3))"
    by (auto simp: really_start_request_send_def Let_def split: option.splits)
  from mod_headers_Some [OF m] have "hc3 = send_state env hc"
    by (simp add: send_state_def)
  with r show ?thesis by blast
qed

lemma really_start_request_send_304:
  assumes "method hc \<noteq> METHOD_HEAD"
    and "not_modified_since hc"
    and "really_start_request_send env is_icon hc = Some (rc, hc')"
  shows "rc = 0 \<and> hc' = send_mime (time_now env) (figure_mime env (fill_last_byte_index hc)) 304
           err304title (encodings (figure_mime env (fill_last_byte_index hc))) []
           (mime_type (figure_mime env (fill_last_byte_index hc))) (- 1) (st_mtime (sb hc))"
  using assms by (simp add: really_start_request_send_def Let_def)

lemma really_start_request_send_GET:
  assumes "method hc \<noteq> METHOD_HEAD"
    and "\<not> not_modified_since hc"
    and "really_start_request_send env is_icon hc = Some (0, hc')"
  shows "\<exists>extra bytes. hc' = send_mime (time_now env) ((send_state env hc)\<lparr>file_address := Some bytes\<rparr>)
           200 ok200title (encodings (send_state env hc)) extra (mime_type (send_state env hc))
           (st_size (sb (send_state env hc))) (st_mtime (sb (send_state env hc)))"
proof -
  from assms(3) obtain extra hc3
    where m: "mod_headers env (figure_mime env (fill_last_byte_index hc)) = Some (extra, hc3)"
    using assms(1,2)
    by (auto simp: really_start_request_send_def Let_def split: option.splits)
  from mod_headers_Some [OF m] have hc3: "hc3 = send_state env hc"
    by (simp add: send_state_def)
  from assms m have "mmc_map env (expnfilename hc3) \<noteq> None"
    by (auto simp: really_start_request_send_def Let_def split: if_splits)
  then obtain bytes where b: "mmc_map env (expnfilename hc3) = Some bytes"
    by auto
  with assms m have "hc' = send_mime (time_now env) (hc3\<lparr>file_address := Some bytes\<rparr>)
           200 ok200title (encodings hc3) extra (mime_type hc3)
           (st_size (sb hc3)) (st_mtime (sb hc3))"
    by (simp add: really_start_request_send_def Let_def)
  then show ?thesis
    unfolding hc3 by blast
qed

section \<open>Range requests and the ETag header\<close>

text \<open>A server, a file of 100 bytes and a request for it.\<close>

definition example_server :: httpd_server where
  "example_server = \<lparr>vhost = False, global_passwd = False, max_age = 3600, charset = ''UTF-8''\<rparr>"

definition blank_conn :: httpd_conn where
  "blank_conn =
     \<lparr>hs = example_server, client_addr = 0, real_ip = [], method = METHOD_UNKNOWN, status = 0,
      bytes_to_send = 0, encodedurl = [], protocol = [], expnfilename = [], encodings = [],
      referer = [], useragent = [], accept = [], accepte = [], acceptl = [], cookie = [],
      contenttype = [], hdrhost = [], hostdir = [], authorization = [], remoteuser = [],
      response = [], if_modified_since = 0, range_if = 0, contentlength = 0, mime_type = [],
      mime_flag = False, got_range = False, first_byte_index = 0, last_byte_index = 0,
      keep_alive = False, do_keep_alive = 0, should_linger = False,
      sb = \<lparr>st_mode = 0, st_size = 0, st_mtime = 0\<rparr>, file_address = None,
      compression_type = COMPRESSION_NONE, has_deflate = True, accesspath = [], authpath = [],
      maxprevauthpath = 0, prevauthpath = [], prevuser = [], prevcryp = []\<rparr>"

definition example_env :: environment where
  "example_env =
     \<lparr>time_now = 1000,
      stat_file = (\<lambda>p. if p = ''file.txt''
                        then Some \<lparr>st_mode = 420, st_size = 100, st_mtime = 500\<rparr> else None),
      mmc_map = (\<lambda>p. if p = ''file.txt'' then Some (replicate 100 (CHR ''x'')) else None),
      enc_tab = [\<lparr>ext = ''gz'', val = ''gzip''\<rparr>],
      typ_tab = init_mime example_typ_tab\<rparr>"

text \<open>A GET of a 100-byte file with \<^verbatim>\<open>Range: bytes=0-\<close>, as the parser leaves it.\<close>

definition example_request :: httpd_conn where
  "example_request =
     (httpd_init_conn_content blank_conn)
       \<lparr>method := METHOD_GET, protocol := ''HTTP/1.1'', encodedurl := ''/file.txt'',
        expnfilename := ''file.txt'',
        sb := \<lparr>st_mode = 420, st_size = 100, st_mtime = 500\<rparr>\<rparr>"

lemma send_states:
  assumes "method hc = METHOD_HEAD \<or> \<not> not_modified_since hc"
    and "really_start_request_send env is_icon hc = Some (0, hc')"
  shows "\<exists>extra hcs. hc' = send_mime (time_now env) hcs 200 ok200title (encodings hcs) extra
             (mime_type hcs) (st_size (sb hcs)) (st_mtime (sb hcs))
           \<and> mime_flag hcs = mime_flag hc \<and> response hcs = response hc
           \<and> got_range hcs = got_range hc \<and> first_byte_index hcs = first_byte_index hc
           \<and> last_byte_index hcs = last_byte_index (fill_last_byte_index hc)
           \<and> range_if hcs = range_if hc \<and> sb hcs = sb (send_state env hc)"
proof (cases "method hc = METHOD_HEAD")
  case True
  from really_start_request_send_HEAD [OF True assms(2)] obtain extra
    where "hc' = send_mime (time_now env) (send_state env hc) 200 ok200title
           (encodings (send_state env hc)) extra (mime_type (send_state env hc))
           (st_size (sb (send_state env hc))) (st_mtime (sb (send_state env hc)))"
    by blast
  then show ?thesis
    by (intro exI [of _ extra] exI [of _ "send_state env hc"]) simp
next
  case False
  with assms(1) have n: "\<not> not_modified_since hc" by blast
  from really_start_request_send_GET [OF False n assms(2)] obtain extra bytes
    where "hc' = send_mime (time_now env) ((send_state env hc)\<lparr>file_address := Some bytes\<rparr>)
           200 ok200title (encodings (send_state env hc)) extra (mime_type (send_state env hc))
           (st_size (sb (send_state env hc))) (st_mtime (sb (send_state env hc)))"
    by blast
  then show ?thesis
    by (intro exI [of _ extra] exI [of _ "(send_state env hc)\<lparr>file_address := Some bytes\<rparr>"]) simp
qed

lemma fill_last_byte_index_bound:
  assumes "got_range hc" and "- 1 \<le> last_byte_index hc"
  shows "last_byte_index (fill_last_byte_index hc) < st_size (sb hc)"
  using assms by (auto simp: fill_last_byte_index_def)

text \<open>
  C3, amended: for a request with headers that reaches the end of
  \<^verbatim>\<open>really_start_request\<close> as a 200 disposition (HEAD, or modified since) and for which
  no \<^verbatim>\<open>.gz\<close> sibling is substituted, the response is a 206 exactly when \<^verbatim>\<open>got_range\<close>
  is set, \<open>first \<le> last\<close> after the clamp, the range is not the whole file, and there is no
  \<^verbatim>\<open>If-Range\<close> time or it equals the file's mtime. Then the headers are
  \<^verbatim>\<open>Content-Range: bytes first-last/total\<close> and \<^verbatim>\<open>Content-Length: last - first + 1\<close>
  with \<open>0 \<le> first \<le> last < total\<close>. In every other case the status stays 200,
  \<^verbatim>\<open>got_range\<close> is cleared and the whole file is announced.
\<close>

theorem range_request_sends_206:
  assumes mime: "mime_flag hc" and fresh: "response hc = []"
    and first: "0 \<le> first_byte_index hc" and last: "- 1 \<le> last_byte_index hc"
    and disp: "method hc = METHOD_HEAD \<or> \<not> not_modified_since hc"
    and nogz: "\<not> gz_sibling_served env (figure_mime env (fill_last_byte_index hc))"
    and sent: "really_start_request_send env is_icon hc = Some (0, hc')"
  shows "let total = st_size (sb hc);
             f = first_byte_index hc;
             l = last_byte_index (fill_last_byte_index hc)
         in if got_range hc \<and> f \<le> l \<and> (l \<noteq> total - 1 \<or> f \<noteq> 0)
               \<and> (range_if hc = - 1 \<or> range_if hc = st_mtime (sb hc))
            then status hc' = 206 \<and> got_range hc'
                 \<and> filter is_content_range (response hc') = [Hdr_content_range f l total]
                 \<and> filter is_content_length (response hc') = [Hdr_content_length (l - f + 1)]
                 \<and> 0 \<le> f \<and> f \<le> l \<and> l < total
            else status hc' = 200 \<and> \<not> got_range hc' \<and> bytes_to_send hc' = total
                 \<and> filter is_content_range (response hc') = []"
proof -
  let ?total = "st_size (sb hc)" and ?f = "first_byte_index hc"
    and ?l = "last_byte_index (fill_last_byte_index hc)"
  from send_states [OF disp sent] obtain extra hcs
    where hc': "hc' = send_mime (time_now env) hcs 200 ok200title (encodings hcs) extra
             (mime_type hcs) (st_size (sb hcs)) (st_mtime (sb hcs))"
      and hcs: "mime_flag hcs = mime_flag hc" "response hcs = response hc"
        "got_range hcs = got_range hc" "first_byte_index hcs = ?f" "last_byte_index hcs = ?l"
        "range_if hcs = range_if hc" "sb hcs = sb (send_state env hc)"
    by blast
  have sb: "sb hcs = sb hc"
    using hcs(7) send_state_same_file [OF nogz] by simp
  have elected: "partial_content_elected hcs 200 ?total \<longleftrightarrow>
      got_range hc \<and> ?f \<le> ?l \<and> (?l \<noteq> ?total - 1 \<or> ?f \<noteq> 0)
      \<and> (range_if hc = - 1 \<or> range_if hc = st_mtime (sb hc))"
    by (simp add: partial_content_elected_def hcs sb)
  have m: "mime_flag hcs" using mime hcs(1) by simp
  show ?thesis
  proof (cases "partial_content_elected hcs 200 ?total")
    case True
    with elected have g: "got_range hc" and fl: "?f \<le> ?l" by blast+
    from fill_last_byte_index_bound [OF g last] have "?l < ?total" .
    with True elected first fl send_mime_partial [OF m, of ?total] show ?thesis
      unfolding hc' sb by (simp add: hcs fresh Let_def)
  next
    case False
    with elected send_mime_full [OF m, of ?total] show ?thesis
      unfolding hc' sb by (simp add: hcs fresh Let_def)
  qed
qed

definition range_0_4_request :: httpd_conn where
  "range_0_4_request = example_request\<lparr>got_range := True, first_byte_index := 0, last_byte_index := 4\<rparr>"

definition range_whole_request :: httpd_conn where
  "range_whole_request = example_request\<lparr>got_range := True, first_byte_index := 0\<rparr>"

text \<open>
  C3, as the specification states it: a request with \<^verbatim>\<open>got_range\<close> set, the last byte
  index clamped to the file size minus one and no \<^verbatim>\<open>If-Range\<close> is answered 206. For
  \<^verbatim>\<open>Range: bytes=0-\<close> on a file of 100 bytes the range is the whole file, and the code
  answers 200 with \<^verbatim>\<open>got_range\<close> cleared and no Content-Range.
\<close>

theorem range_whole_file_counterexample:
  "got_range range_whole_request \<and> range_if range_whole_request = - 1
   \<and> first_byte_index range_whole_request = 0
   \<and> last_byte_index (fill_last_byte_index range_whole_request) = st_size (sb range_whole_request) - 1
   \<and> map_option (\<lambda>(rc, hc'). (rc, status hc', got_range hc', filter is_content_range (response hc')))
        (really_start_request_send example_env False range_whole_request)
       = Some (0, 200, False, [])"
  by code_simp

theorem range_request_sends_206_witness:
  "mime_flag range_0_4_request \<and> response range_0_4_request = []
   \<and> 0 \<le> first_byte_index range_0_4_request \<and> - 1 \<le> last_byte_index range_0_4_request
   \<and> \<not> not_modified_since range_0_4_request
   \<and> \<not> gz_sibling_served example_env (figure_mime example_env (fill_last_byte_index range_0_4_request))
   \<and> (\<exists>hc'. really_start_request_send example_env False range_0_4_request = Some (0, hc')
          \<and> status hc' = 206 \<and> got_range hc'
          \<and> filter is_content_range (response hc') = [Hdr_content_range 0 4 100]
          \<and> filter is_content_length (response hc') = [Hdr_content_length 5])"
proof -
  have a: "mime_flag range_0_4_request" "response range_0_4_request = []"
    "0 \<le> first_byte_index range_0_4_request" "- 1 \<le> last_byte_index range_0_4_request"
    by code_simp+
  have d: "\<not> not_modified_since range_0_4_request"
    by code_simp
  have g: "\<not> gz_sibling_served example_env (figure_mime example_env (fill_last_byte_index range_0_4_request))"
    by code_simp
  have "map_option fst (really_start_request_send example_env False range_0_4_request) = Some 0"
    by code_simp
  then obtain hc' where s: "really_start_request_send example_env False range_0_4_request = Some (0, hc')"
    by (cases "really_start_request_send example_env False range_0_4_request") auto
  have v: "got_range range_0_4_request" "first_byte_index range_0_4_request = 0"
    "last_byte_index (fill_last_byte_index range_0_4_request) = 4"
    "st_size (sb range_0_4_request) = 100" "range_if range_0_4_request = - 1"
    by code_simp+
  from range_request_sends_206 [OF a disjI2 [OF d] g s]
  have "status hc' = 206 \<and> got_range hc'
          \<and> filter is_content_range (response hc') = [Hdr_content_range 0 4 100]
          \<and> filter is_content_length (response hc') = [Hdr_content_length 5]"
    by (simp add: v Let_def)
  with a d g s show ?thesis by blast
qed

text \<open>
  C10: a response of \<^verbatim>\<open>send_mime\<close> gains an ETag header only when
  \<^verbatim>\<open>file_address\<close> is set and \<^verbatim>\<open>max_age\<close> is not negative;
  \<^verbatim>\<open>httpd_init_conn_content\<close> resets \<^verbatim>\<open>file_address\<close> and empties the response; and a
  HEAD or a 304 response of a request that starts from there has no ETag header.
\<close>

theorem etag_only_for_mapped_file:
  "(has_etag (send_mime now hc st title encs extraheads typ len modt)
      \<longrightarrow> has_etag hc \<or> (file_address hc \<noteq> None \<and> max_age (hs hc) \<ge> 0))
   \<and> file_address (httpd_init_conn_content hc0) = None
   \<and> \<not> has_etag (httpd_init_conn_content hc0)
   \<and> (file_address hc = None \<and> \<not> has_etag hc
        \<and> (method hc = METHOD_HEAD \<or> not_modified_since hc)
        \<and> really_start_request_send env is_icon hc = Some (rc, hc')
      \<longrightarrow> \<not> has_etag hc')"
proof (intro conjI impI)
  assume "has_etag (send_mime now hc st title encs extraheads typ len modt)"
  then show "has_etag hc \<or> (file_address hc \<noteq> None \<and> max_age (hs hc) \<ge> 0)"
    by (simp add: send_mime_etag) blast
next
  show "file_address (httpd_init_conn_content hc0) = None"
    by (simp add: httpd_init_conn_content_def)
next
  show "\<not> has_etag (httpd_init_conn_content hc0)"
    by (simp add: httpd_init_conn_content_def has_etag_def)
next
  assume a: "file_address hc = None \<and> \<not> has_etag hc
        \<and> (method hc = METHOD_HEAD \<or> not_modified_since hc)
        \<and> really_start_request_send env is_icon hc = Some (rc, hc')"
  then have fa: "file_address hc = None" and ne: "\<not> has_etag hc"
    and r: "really_start_request_send env is_icon hc = Some (rc, hc')"
    by blast+
  have e1: "has_etag (send_state env hc) = has_etag hc"
    by (simp add: has_etag_def)
  have e2: "has_etag (figure_mime env (fill_last_byte_index hc)) = has_etag hc"
    by (simp add: has_etag_def)
  show "\<not> has_etag hc'"
  proof (cases "method hc = METHOD_HEAD")
    case True
    from really_start_request_send_HEAD [OF True r] obtain extra
      where "hc' = send_mime (time_now env) (send_state env hc) 200 ok200title
           (encodings (send_state env hc)) extra (mime_type (send_state env hc))
           (st_size (sb (send_state env hc))) (st_mtime (sb (send_state env hc)))"
      by blast
    with fa ne show ?thesis
      by (simp add: send_mime_etag e1)
  next
    case False
    with a have "not_modified_since hc" by blast
    from really_start_request_send_304 [OF False this r] fa ne show ?thesis
      by (simp add: send_mime_etag e2)
  qed
qed

definition head_request :: httpd_conn where
  "head_request = example_request\<lparr>method := METHOD_HEAD\<rparr>"

theorem etag_only_for_mapped_file_witness:
  "file_address head_request = None \<and> \<not> has_etag head_request
   \<and> method head_request = METHOD_HEAD
   \<and> (\<exists>rc hc'. really_start_request_send example_env False head_request = Some (rc, hc')
          \<and> status hc' = 200 \<and> \<not> has_etag hc')"
proof -
  have a: "file_address head_request = None" "\<not> has_etag head_request"
    "method head_request = METHOD_HEAD"
    by code_simp+
  have "map_option (\<lambda>(rc, hc'). status hc') (really_start_request_send example_env False head_request)
        = Some 200"
    by code_simp
  then obtain rc hc' where s: "really_start_request_send example_env False head_request = Some (rc, hc')"
    and t: "status hc' = 200"
    by (cases "really_start_request_send example_env False head_request") auto
  from etag_only_for_mapped_file [of _ head_request _ _ _ _ _ _ _ _ example_env False rc hc'] a s
  have "\<not> has_etag hc'" by blast
  with a s t show ?thesis by blast
qed

subsection \<open>The range clamp and the \<^verbatim>\<open>.gz\<close> sibling\<close>

text \<open>
  Lines 4233-4235 clamp \<^verbatim>\<open>last_byte_index\<close> against the size of the requested file, and
  \<^verbatim>\<open>mod_headers\<close> is called after that. When it serves the \<^verbatim>\<open>.gz\<close> sibling it overwrites
  \<^verbatim>\<open>hc->sb.st_size\<close>, and the total of the Content-Range line is the size of the sibling: a
  request for the bytes 0-49 of a file of 100 bytes whose sibling has 30 bytes is answered
  206 with \<^verbatim>\<open>Content-Range: bytes 0-49/30\<close>.
\<close>

definition gz_env :: environment where
  "gz_env =
     example_env
       \<lparr>stat_file := (\<lambda>p. if p = ''file.txt''
                             then Some \<lparr>st_mode = 420, st_size = 100, st_mtime = 500\<rparr>
                           else if p = ''file.txt.gz''
                             then Some \<lparr>st_mode = 420, st_size = 30, st_mtime = 600\<rparr>
                           else None),
        mmc_map := (\<lambda>p. if p = ''file.txt'' then Some (replicate 100 (CHR ''x''))
                         else if p = ''file.txt.gz'' then Some (replicate 30 (CHR ''z''))
                         else None)\<rparr>"

definition gz_range_request :: httpd_conn where
  "gz_range_request =
     example_request\<lparr>got_range := True, first_byte_index := 0, last_byte_index := 49,
                      compression_type := COMPRESSION_GZIP\<rparr>"

lemma gz_sibling_range_exceeds_total:
  "map_option (\<lambda>(rc, hc'). (rc, status hc', expnfilename hc', filter is_content_range (response hc')))
     (really_start_request_send gz_env False gz_range_request)
   = Some (0, 206, ''file.txt.gz'', [Hdr_content_range 0 49 30])"
  by code_simp

section \<open>The header loop of httpd_parse_request (libhttpd.c, lines 2422-2582)\<close>

text \<open>\<^verbatim>\<open>isspace\<close>, \<^verbatim>\<open>isdigit\<close> and \<^verbatim>\<open>isblank\<close> in the C locale.\<close>

definition c_isspace :: "char \<Rightarrow> bool" where
  "c_isspace c \<longleftrightarrow> c \<in> {CHR '' '', CHR 0x09, CHR 0x0A, CHR 0x0B, CHR 0x0C, CHR 0x0D}"

definition c_isdigit :: "char \<Rightarrow> bool" where
  "c_isdigit c \<longleftrightarrow> (48::nat) \<le> of_char c \<and> of_char c \<le> (57::nat)"

definition c_isblank :: "char \<Rightarrow> bool" where
  "c_isblank c \<longleftrightarrow> c = CHR '' '' \<or> c = CHR 0x09"

text \<open>
  \<^verbatim>\<open>atoll\<close> (lines 4477-4508, the fallback the file carries): white space, a sign,
  then digits accumulated in a \<^verbatim>\<open>long long\<close>, written here with the wrap-around of 64
  bits. The fallback is compiled only where \<^verbatim>\<open>HAVE_ATOLL\<close> is not defined; the C library's
  \<^verbatim>\<open>atoll\<close> agrees with it on every number that fits in 64 bits.
\<close>

definition wrap_long_long :: "int \<Rightarrow> int" where
  "wrap_long_long v = sint (word_of_int v :: 64 word)"

fun atoll_digits :: "string \<Rightarrow> int \<Rightarrow> int" where
  "atoll_digits [] v = v"
| "atoll_digits (c # cs) v =
     (if c_isdigit c then atoll_digits cs (wrap_long_long (v * 10 + (int (of_char c) - 48))) else v)"

definition atoll :: "string \<Rightarrow> int" where
  "atoll str =
     (let s = dropWhile c_isspace str in
      case s of
        [] \<Rightarrow> 0
      | c # cs \<Rightarrow>
          if c = CHR ''-'' then wrap_long_long (- atoll_digits cs 0)
          else if c = CHR ''+'' then atoll_digits cs 0
          else atoll_digits s 0)"

text \<open>
  \<^verbatim>\<open>strcasecmp\<close>, \<^verbatim>\<open>cp += strspn(cp, " \\t")\<close> and \<^verbatim>\<open>strchr\<close> (the offset of the first
  occurrence).
\<close>

definition strcasecmp :: "string \<Rightarrow> string \<Rightarrow> int" where
  "strcasecmp s1 s2 = strncasecmp s1 s2 (Suc (max (length s1) (length s2)))"

definition skip_blanks :: "string \<Rightarrow> string" where
  "skip_blanks cp = dropWhile c_isblank cp"

definition strchr :: "string \<Rightarrow> char \<Rightarrow> nat option" where
  "strchr s c = (if c \<in> set s then Some (length (takeWhile (\<lambda>x. x \<noteq> c) s)) else None)"

text \<open>\<^verbatim>\<open>tdate_parse\<close> (tdate_parse.c) and the C library's \<^verbatim>\<open>atol\<close> are parameters.\<close>

record parse_env =
  tdate_parse :: "string \<Rightarrow> int"
  atol :: "string \<Rightarrow> int"

text \<open>
  The \<^verbatim>\<open>Accept:\<close> branch (lines 2444-2456); \<open>cp\<close> is the value behind the name and
  the blanks. A second occurrence is appended behind \<^verbatim>\<open>", "\<close> with \<^verbatim>\<open>strcat\<close>, unless
  the stored value is longer than 5000 bytes, when the occurrence is logged and skipped.
\<close>

definition hdr_accept :: "httpd_conn \<Rightarrow> string \<Rightarrow> httpd_conn" where
  "hdr_accept hc cp =
     (if accept hc \<noteq> [] then
        (if length (accept hc) > 5000 then hc
         else hc\<lparr>accept := (accept hc @ '', '') @ cp\<rparr>)
      else hc\<lparr>accept := accept hc @ cp\<rparr>)"

text \<open>
  The \<^verbatim>\<open>Accept-Encoding:\<close> branch (lines 2457-2470). It differs from the branch above
  in its last statement: behind \<^verbatim>\<open>strcat(hc->accepte, ", ")\<close> stands
  \<^verbatim>\<open>strcpy(hc->accepte, cp)\<close>, which writes \<open>cp\<close> from the start of the buffer.
\<close>

definition hdr_accept_encoding :: "httpd_conn \<Rightarrow> string \<Rightarrow> httpd_conn" where
  "hdr_accept_encoding hc cp =
     (if accepte hc \<noteq> [] then
        (if length (accepte hc) > 5000 then hc
         else (hc\<lparr>accepte := accepte hc @ '', ''\<rparr>)\<lparr>accepte := cp\<rparr>)
      else hc\<lparr>accepte := cp\<rparr>)"

text \<open>
  The \<^verbatim>\<open>Range:\<close> branch (lines 2484-2505): no comma, an \<^verbatim>\<open>=\<close>, a \<^verbatim>\<open>-\<close> behind it
  that is not the next byte; the first index is \<^verbatim>\<open>atoll\<close> of the text between them,
  the last index is read only if a digit follows the dash.
\<close>

definition hdr_range :: "httpd_conn \<Rightarrow> string \<Rightarrow> httpd_conn" where
  "hdr_range hc buf =
     (if CHR '','' \<in> set buf then hc
      else case strchr buf (CHR ''='') of
        None \<Rightarrow> hc
      | Some eq \<Rightarrow>
          let after = drop (Suc eq) buf in
          case strchr after (CHR ''-'') of
            None \<Rightarrow> hc
          | Some dash \<Rightarrow>
              if dash = 0 then hc
              else
                let f = atoll (take dash after);
                    hc1 = hc\<lparr>got_range := True, first_byte_index := (if f < 0 then 0 else f)\<rparr>;
                    tail = drop (Suc dash) after
                in if tail \<noteq> [] \<and> c_isdigit (hd tail)
                   then let l = atoll tail in hc1\<lparr>last_byte_index := (if l < 0 then - 1 else l)\<rparr>
                   else hc1)"

text \<open>
  One pass of the loop body: the chain of \<^verbatim>\<open>strncasecmp(buf, "Name:", n) == 0\<close> tests.
  The second component is \<open>False\<close> where the code sends 400 and returns \<open>-1\<close>. Headers
  that the chain does not name leave the connection as it is.
\<close>

definition hdr_is :: "string \<Rightarrow> string \<Rightarrow> bool" where
  "hdr_is buf name \<longleftrightarrow> strncasecmp buf name (length name) = 0"

definition parse_header :: "parse_env \<Rightarrow> int \<Rightarrow> httpd_conn \<Rightarrow> string \<Rightarrow> httpd_conn \<times> bool" where
  "parse_header penv now hc buf =
     (if hdr_is buf ''Referer:'' then (hc\<lparr>referer := skip_blanks (drop 8 buf)\<rparr>, True)
      else if hdr_is buf ''User-Agent:'' then (hc\<lparr>useragent := skip_blanks (drop 11 buf)\<rparr>, True)
      else if hdr_is buf ''Host:'' then
        (let hc1 = hc\<lparr>hdrhost := skip_blanks (drop 5 buf)\<rparr> in
         if CHR ''/'' \<in> set (hdrhost hc1) \<or> prefix ''.'' (hdrhost hc1)
         then (httpd_send_err now hc1 400 httpd_err400title [] httpd_err400form ''7'', False)
         else (hc1, True))
      else if hdr_is buf ''Accept:'' then (hdr_accept hc (skip_blanks (drop 7 buf)), True)
      else if hdr_is buf ''Accept-Encoding:'' then
        (hdr_accept_encoding hc (skip_blanks (drop 16 buf)), True)
      else if hdr_is buf ''Accept-Language:'' then (hc\<lparr>acceptl := skip_blanks (drop 16 buf)\<rparr>, True)
      else if hdr_is buf ''If-Modified-Since:'' then
        (hc\<lparr>if_modified_since := tdate_parse penv (drop 18 buf)\<rparr>, True)
      else if hdr_is buf ''Cookie:'' then (hc\<lparr>cookie := skip_blanks (drop 7 buf)\<rparr>, True)
      else if hdr_is buf ''Range:'' then (hdr_range hc buf, True)
      else if hdr_is buf ''Range-If:'' \<or> hdr_is buf ''If-Range:'' then
        (hc\<lparr>range_if := tdate_parse penv (drop 9 buf)\<rparr>, True)
      else if hdr_is buf ''Content-Type:'' then (hc\<lparr>contenttype := skip_blanks (drop 13 buf)\<rparr>, True)
      else if hdr_is buf ''Content-Length:'' then (hc\<lparr>contentlength := atol penv (drop 15 buf)\<rparr>, True)
      else if hdr_is buf ''Authorization:'' then
        (hc\<lparr>authorization := skip_blanks (drop 14 buf)\<rparr>, True)
      else if hdr_is buf ''Connection:'' then
        (if strcasecmp (skip_blanks (drop 11 buf)) ''keep-alive'' = 0
         then (hc\<lparr>keep_alive := True, do_keep_alive := 10\<rparr>, True) else (hc, True))
      else if hdr_is buf ''X-Forwarded-For:'' then
        (hc\<lparr>real_ip := takeWhile (\<lambda>c. \<not> c_isblank c) (skip_blanks (drop 16 buf))\<rparr>, True)
      else (hc, True))"

text \<open>
  \<^verbatim>\<open>bufgets\<close> (lines 2729-2749) on the unread part of the read buffer: the next line
  without its end (LF, CR or CR LF) and what follows it; \<open>None\<close> when
  no line end is left. \<open>read_headers\<close> is the loop \<^verbatim>\<open>while ((buf = bufgets(hc)))\<close>, left
  at an empty line.
\<close>

definition bufgets :: "string \<Rightarrow> (string \<times> string) option" where
  "bufgets buf =
     (case dropWhile (\<lambda>c. c \<noteq> CHR 0x0A \<and> c \<noteq> CHR 0x0D) buf of
        [] \<Rightarrow> None
      | c # rest \<Rightarrow>
          Some (takeWhile (\<lambda>c. c \<noteq> CHR 0x0A \<and> c \<noteq> CHR 0x0D) buf,
                if c = CHR 0x0D \<and> prefix [CHR 0x0A] rest then tl rest else rest))"

lemma bufgets_shorter: "bufgets buf = Some (line, rest) \<Longrightarrow> length rest < length buf"
proof -
  assume a: "bufgets buf = Some (line, rest)"
  let ?d = "dropWhile (\<lambda>c. c \<noteq> CHR 0x0A \<and> c \<noteq> CHR 0x0D) buf"
  from a obtain c r where d: "?d = c # r" and le: "length rest \<le> length r"
    by (auto simp: bufgets_def split: list.splits if_splits)
  have "length ?d \<le> length buf"
    by (rule length_dropWhile_le)
  with d le show ?thesis by simp
qed

function read_headers :: "parse_env \<Rightarrow> int \<Rightarrow> httpd_conn \<Rightarrow> string \<Rightarrow> httpd_conn \<times> bool" where
  "read_headers penv now hc buf =
     (case bufgets buf of
        None \<Rightarrow> (hc, True)
      | Some (line, rest) \<Rightarrow>
          if line = [] then (hc, True)
          else case parse_header penv now hc line of
                 (hc', False) \<Rightarrow> (hc', False)
               | (hc', True) \<Rightarrow> read_headers penv now hc' rest)"
  by pat_completeness auto
termination
  by (relation "measure (\<lambda>(penv, now, hc, buf). length buf)") (auto dest: bufgets_shorter)

declare read_headers.simps [simp del]

section \<open>Repeated Accept and Accept-Encoding headers\<close>

definition crlf :: string where
  "crlf = [CHR 0x0D, CHR 0x0A]"

definition example_parse_env :: parse_env where
  "example_parse_env = \<lparr>tdate_parse = (\<lambda>s. - 1), atol = (\<lambda>s. 0)\<rparr>"

definition two_accept_encoding_headers :: string where
  "two_accept_encoding_headers =
     ''Accept-Encoding: gzip'' @ crlf @ ''Accept-Encoding: deflate'' @ crlf @ crlf"

definition two_accept_headers :: string where
  "two_accept_headers = ''Accept: text/html'' @ crlf @ ''Accept: image/png'' @ crlf @ crlf"

lemma hdr_accept_encoding_overwrites:
  "length (accepte hc) \<le> 5000 \<Longrightarrow> accepte (hdr_accept_encoding hc cp) = cp"
  by (simp add: hdr_accept_encoding_def)

lemma hdr_accept_concatenates:
  "accept hc \<noteq> [] \<Longrightarrow> length (accept hc) \<le> 5000 \<Longrightarrow>
   accept (hdr_accept hc cp) = accept hc @ '', '' @ cp"
  by (simp add: hdr_accept_def)

text \<open>
  C7 at two inputs: two \<^verbatim>\<open>Accept-Encoding:\<close> lines leave only the value of the second in
  \<^verbatim>\<open>hc->accepte\<close>, while two \<^verbatim>\<open>Accept:\<close> lines are joined with \<^verbatim>\<open>", "\<close>.
\<close>

theorem repeated_accept_encoding_keeps_last:
  "accepte (fst (read_headers example_parse_env 0 (httpd_init_conn_content blank_conn)
                   two_accept_encoding_headers)) = ''deflate''
   \<and> accept (fst (read_headers example_parse_env 0 (httpd_init_conn_content blank_conn)
                   two_accept_headers)) = ''text/html, image/png''"
  by code_simp

lemma hdr_range_bounds:
  assumes "0 \<le> first_byte_index hc" and "- 1 \<le> last_byte_index hc"
  shows "0 \<le> first_byte_index (hdr_range hc buf) \<and> - 1 \<le> last_byte_index (hdr_range hc buf)"
  using assms
  by (simp add: hdr_range_def Let_def split: option.splits)


section \<open>The access and authentication files (libhttpd.c, lines 959-1396)\<close>

text \<open>
  \<^verbatim>\<open>AUTH_FILE\<close> and \<^verbatim>\<open>ACCESS_FILE\<close> are macros of the build configuration; the
  specification names the files \<^verbatim>\<open>.htpasswd\<close> and \<^verbatim>\<open>.htaccess\<close>.
\<close>

definition AUTH_FILE :: string where "AUTH_FILE = ''.htpasswd''"
definition ACCESS_FILE :: string where "ACCESS_FILE = ''.htaccess''"

definition err401form :: string where
  "err401form = ''Authorization required for the URL '%s'.\<newline>''"
definition err403form :: string where
  "err403form = ''You do not have permission to get URL '%s' from this server.\<newline>''"

text \<open>
  What the two checks ask of the system: the clock, \<^verbatim>\<open>stat\<close> (does the path exist),
  \<^verbatim>\<open>lstat\<close> (the mtime of the path, \<open>None\<close> on failure), \<^verbatim>\<open>fopen\<close> with the strings
  that the successive calls of \<^verbatim>\<open>fgets(line, sizeof(line), fp)\<close> return (\<open>None\<close> when the
  file cannot be opened), \<^verbatim>\<open>crypt\<close> (\<open>None\<close> for NULL), \<^verbatim>\<open>b64_decode\<close> (base64.c, the
  decoded bytes), \<^verbatim>\<open>inet_aton\<close> (the \<^verbatim>\<open>s_addr\<close> written, \<open>None\<close> for the result 0),
  \<^verbatim>\<open>atol\<close> and \<^verbatim>\<open>htonl\<close>.
\<close>

record ht_env =
  clock :: int
  file_exists :: "string \<Rightarrow> bool"
  lstat_mtime :: "string \<Rightarrow> int option"
  fopen_lines :: "string \<Rightarrow> string list option"
  crypt :: "string \<Rightarrow> string \<Rightarrow> string option"
  b64_decode :: "string \<Rightarrow> string"
  inet_aton :: "string \<Rightarrow> 32 word option"
  atol_of :: "string \<Rightarrow> int"
  htonl :: "32 word \<Rightarrow> 32 word"

text \<open>The capacity that \<^verbatim>\<open>httpd_realloc_str\<close> (lines 751-773) leaves in \<^verbatim>\<open>*curr_len\<close>.\<close>

definition realloc_len :: "nat \<Rightarrow> nat \<Rightarrow> nat" where
  "realloc_len curr_len new_len =
     (if curr_len = 0 then max 200 (new_len + 100)
      else if new_len > curr_len then max (curr_len * 2) (new_len * 5 div 4)
      else curr_len)"

text \<open>
  The C string at the start of a byte buffer, and \<^verbatim>\<open>if (line[l - 1] == 10) line[l - 1] = 0\<close>
  (\<^verbatim>\<open>fgets\<close> never returns an empty string).
\<close>

definition cstr :: "string \<Rightarrow> string" where
  "cstr bytes = takeWhile (\<lambda>c. c \<noteq> NUL) bytes"

definition nuke_newline :: "string \<Rightarrow> string" where
  "nuke_newline line = (if line \<noteq> [] \<and> last line = CHR 0x0A then butlast line else line)"

text \<open>\<^verbatim>\<open>send_authenticate\<close> (lines 1185-1199).\<close>

definition send_authenticate :: "int \<Rightarrow> httpd_conn \<Rightarrow> string \<Rightarrow> httpd_conn" where
  "send_authenticate now hc realm =
     (let header = ''WWW-Authenticate: Basic realm='' @ [CHR 0x22] @ realm @ [CHR 0x22, CHR 0x0D, CHR 0x0A];
          hc1 = httpd_send_err now hc 401 err401title header err401form (encodedurl hc)
      in if method hc1 = METHOD_POST \<or> method hc1 = METHOD_PUT
         then hc1\<lparr>should_linger := True\<rparr> else hc1)"

text \<open>
  The loop over the lines of the password file (lines 1343-1395): a line without a colon
  is skipped; the first line whose user field equals \<open>authinfo\<close> ends the scan with
  \<^verbatim>\<open>fclose(fp)\<close> and decides by \<^verbatim>\<open>crypt\<close>; a file without such a line ends in 401. The
  third component is the function's \<^verbatim>\<open>static time_t prevmtime\<close>.
\<close>

fun auth_scan ::
  "ht_env \<Rightarrow> httpd_conn \<Rightarrow> string \<Rightarrow> int \<Rightarrow> string \<Rightarrow> string \<Rightarrow> int \<Rightarrow> string list
   \<Rightarrow> int \<times> httpd_conn \<times> int" where
  "auth_scan env hc dir mtime authinfo authpass prevmtime [] =
     (- 1, send_authenticate (clock env) hc dir, prevmtime)"
| "auth_scan env hc dir mtime authinfo authpass prevmtime (l # ls) =
     (let line = nuke_newline l in
      case strchr line (CHR '':'') of
        None \<Rightarrow> auth_scan env hc dir mtime authinfo authpass prevmtime ls
      | Some i \<Rightarrow>
          let user = take i line; cryp = drop (Suc i) line in
          if user = authinfo then
            (case crypt env authpass cryp of
               None \<Rightarrow> (- 1, hc, prevmtime)
             | Some crypt_result \<Rightarrow>
                 if crypt_result = cryp
                 then (1, hc\<lparr>remoteuser := user,
                             maxprevauthpath := realloc_len (maxprevauthpath hc) (length (authpath hc) + 1),
                             prevauthpath := authpath hc, prevuser := authinfo, prevcryp := cryp\<rparr>,
                       mtime)
                 else (- 1, send_authenticate (clock env) hc dir, prevmtime))
          else auth_scan env hc dir mtime authinfo authpass prevmtime ls)"

text \<open>
  Lines 1293-1308: the decoded authorization, split at its first colon into user and
  password, the password cut at a further colon. Lines 1311-1312: the test of the
  one-entry cache.
\<close>

definition basic_credentials :: "ht_env \<Rightarrow> httpd_conn \<Rightarrow> (string \<times> string) option" where
  "basic_credentials env hc =
     (let authinfo = cstr (take 549 (b64_decode env (drop 6 (authorization hc)))) in
      case strchr authinfo (CHR '':'') of
        None \<Rightarrow> None
      | Some i \<Rightarrow> Some (take i authinfo, takeWhile (\<lambda>c. c \<noteq> CHR '':'') (drop (Suc i) authinfo)))"

definition auth_cached :: "httpd_conn \<Rightarrow> int \<Rightarrow> int \<Rightarrow> string \<Rightarrow> bool" where
  "auth_cached hc mtime prevmtime authinfo \<longleftrightarrow>
     maxprevauthpath hc \<noteq> 0 \<and> authpath hc = prevauthpath hc
     \<and> mtime = prevmtime \<and> authinfo = prevuser hc"

text \<open>\<^verbatim>\<open>auth_check2\<close> (lines 1264-1396).\<close>

definition auth_check2 :: "ht_env \<Rightarrow> int \<Rightarrow> httpd_conn \<Rightarrow> string \<Rightarrow> int \<times> httpd_conn \<times> int" where
  "auth_check2 env prevmtime hc0 dir =
     (let hc = hc0\<lparr>authpath := dir @ ''/'' @ AUTH_FILE\<rparr> in
      case lstat_mtime env (authpath hc) of
        None \<Rightarrow> (0, hc, prevmtime)
      | Some mtime \<Rightarrow>
          if authorization hc = [] \<or> \<not> prefix ''Basic '' (authorization hc)
          then (- 1, send_authenticate (clock env) hc dir, prevmtime)
          else
            case basic_credentials env hc of
              None \<Rightarrow> (- 1, send_authenticate (clock env) hc dir, prevmtime)
            | Some (authinfo, authpass) \<Rightarrow>
                if auth_cached hc mtime prevmtime authinfo
                then (case crypt env authpass (prevcryp hc) of
                        None \<Rightarrow> (- 1, hc, prevmtime)
                      | Some crypt_result \<Rightarrow>
                          if crypt_result = prevcryp hc
                          then (1, hc\<lparr>remoteuser := authinfo\<rparr>, prevmtime)
                          else (- 1, send_authenticate (clock env) hc dir, prevmtime))
                else
                  (case fopen_lines env (authpath hc) of
                     None \<Rightarrow> (- 1, httpd_send_err (clock env) hc 403 err403title [] err403form
                                        (encodedurl hc), prevmtime)
                   | Some lines \<Rightarrow>
                       auth_scan env hc dir mtime authinfo authpass prevmtime lines))"

text \<open>
  \<^verbatim>\<open>find_htfile\<close> (lines 959-1005): \<^verbatim>\<open>snprintf\<close> writes at most
  \<^verbatim>\<open>strlen(dir) + strlen(htfile) + 1\<close> bytes of \<^verbatim>\<open>dir/htfile\<close>; each pass cuts the path
  before the slash in front of \<open>htfile\<close>, returns that directory when the file exists,
  stops at \<open>topdir\<close> or at a path without slash, and otherwise tries the parent. The
  \<^verbatim>\<open>memmove\<close> is written for a directory name that does not itself contain \<open>htfile\<close>.
\<close>

function find_htfile_loop :: "ht_env \<Rightarrow> string \<Rightarrow> string \<Rightarrow> string \<Rightarrow> string option" where
  "find_htfile_loop env topdir htfile path =
     (let rc = file_exists env path in
      case strstr path htfile of
        None \<Rightarrow> None
      | Some i \<Rightarrow>
          let path1 = take (i - 1) path in
          if rc then Some path1
          else if topdir = path1 then None
          else case strrchr path1 (CHR ''/'') of
                 None \<Rightarrow> None
               | Some slash \<Rightarrow> find_htfile_loop env topdir htfile (take (Suc slash) path1 @ htfile))"
  by pat_completeness auto
termination
proof (relation "measure (\<lambda>(env, topdir, htfile, path). length path)")
  show "wf (measure (\<lambda>(env, topdir, htfile, path). length path))" by simp
next
  fix env :: ht_env and topdir htfile path path1 :: string and rc i slash
  assume s: "strstr path htfile = Some i" and p1: "path1 = take (i - 1) path"
    and sl: "strrchr path1 (CHR ''/'') = Some slash"
  from strstr_Some [OF s] have le: "i + length htfile \<le> length path" by simp
  from sl have "CHR ''/'' \<in> set path1"
    by (simp add: strrchr_def split: if_splits)
  then have ne: "path1 \<noteq> []" by auto
  with p1 le have i: "0 < i - 1" "i - 1 \<le> length path" by auto
  from sl ne have "slash < length path1"
    by (auto simp: strrchr_def split: if_splits)
  with p1 i have "Suc slash \<le> i - 1" by simp
  with le i show "((env, topdir, htfile, take (Suc slash) path1 @ htfile), (env, topdir, htfile, path))
      \<in> measure (\<lambda>(env, topdir, htfile, path). length path)"
    by simp
qed

declare find_htfile_loop.simps [simp del]

definition find_htfile :: "ht_env \<Rightarrow> string \<Rightarrow> string \<Rightarrow> string \<Rightarrow> string option" where
  "find_htfile env topdir dir htfile =
     find_htfile_loop env topdir htfile
       (take (length dir + length htfile + 1)
          ((if dir \<noteq> [] then dir else ''.'') @ ''/'' @ htfile))"

text \<open>
  \<^verbatim>\<open>access_check2\<close> (lines 1070-1181). \<open>mask_xor_loop m n\<close> is
  \<^verbatim>\<open>for (l = n; l > 0; --l) ipv4_mask.s_addr ^= 1 << (l - 1);\<close> The mask is declared
  once, before the loop over the lines, with the value \<^verbatim>\<open>0xffffffff\<close>: a line without
  \<^verbatim>\<open>/mask\<close> uses what the lines before left in it. One line gives an error
  (\<^verbatim>\<open>goto err\<close>), an allow (\<^verbatim>\<open>return 1\<close>) or the next pass with the mask it leaves:
  in \<^verbatim>\<open>case 'd': case 'D': break;\<close> the \<^verbatim>\<open>break\<close> leaves the \<^verbatim>\<open>switch\<close>, and the
  \<^verbatim>\<open>while\<close> loop goes on.
\<close>

fun mask_xor_loop :: "32 word \<Rightarrow> nat \<Rightarrow> 32 word" where
  "mask_xor_loop m 0 = m"
| "mask_xor_loop m (Suc k) = mask_xor_loop (m XOR push_bit k 1) k"

datatype access_step = Step_err | Step_allow | Step_next "32 word"

text \<open>\<^verbatim>\<open>if (addr1 > addr2) addr = addr1; else addr = addr2;\<close> on pointers that may be NULL.\<close>

definition later_pointer :: "nat option \<Rightarrow> nat option \<Rightarrow> nat option" where
  "later_pointer addr1 addr2 =
     (case (addr1, addr2) of
        (Some a, Some b) \<Rightarrow> if a > b then Some a else Some b
      | (Some a, None) \<Rightarrow> Some a
      | (None, b) \<Rightarrow> b)"

definition access_mask :: "ht_env \<Rightarrow> 32 word \<Rightarrow> string \<Rightarrow> 32 word option" where
  "access_mask env ipv4_mask mask_str =
     (if mask_str = [] then None
      else if CHR ''.'' \<notin> set mask_str then
        (let l = atol_of env mask_str in
         if l < 0 \<or> l > 32 then None
         else Some (htonl env (mask_xor_loop ipv4_mask (nat (32 - l)))))
      else inet_aton env mask_str)"

definition access_line :: "ht_env \<Rightarrow> 32 word \<Rightarrow> 32 word \<Rightarrow> string \<Rightarrow> access_step" where
  "access_line env client ipv4_mask line =
     (case later_pointer (strrchr line (CHR '' '')) (strrchr line (CHR 0x09)) of
        None \<Rightarrow> Step_err
      | Some a \<Rightarrow>
          let addr = drop (Suc a) line;
              mask_result =
                (case strchr addr (CHR ''/'') of
                   None \<Rightarrow> Some (addr, ipv4_mask)
                 | Some m \<Rightarrow>
                     map_option (\<lambda>mk. (take m addr, mk)) (access_mask env ipv4_mask (drop (Suc m) addr)))
          in case mask_result of
               None \<Rightarrow> Step_err
             | Some (addr', ipv4_mask') \<Rightarrow>
                 (case inet_aton env addr' of
                    None \<Rightarrow> Step_err
                  | Some ipv4_addr \<Rightarrow>
                      if client AND ipv4_mask' = ipv4_addr AND ipv4_mask' then
                        (if hd line = CHR ''d'' \<or> hd line = CHR ''D'' then Step_next ipv4_mask'
                         else if hd line = CHR ''a'' \<or> hd line = CHR ''A'' then Step_allow
                         else Step_err)
                      else Step_next ipv4_mask'))"

definition access_denied :: "ht_env \<Rightarrow> httpd_conn \<Rightarrow> httpd_conn" where
  "access_denied env hc =
     httpd_send_err (clock env) hc 403 err403title [] err403form (encodedurl hc)"

fun access_scan :: "ht_env \<Rightarrow> httpd_conn \<Rightarrow> 32 word \<Rightarrow> string list \<Rightarrow> int \<times> httpd_conn" where
  "access_scan env hc ipv4_mask [] = (- 1, access_denied env hc)"
| "access_scan env hc ipv4_mask (l # ls) =
     (case access_line env (client_addr hc) ipv4_mask (nuke_newline l) of
        Step_err \<Rightarrow> (- 1, access_denied env hc)
      | Step_allow \<Rightarrow> (1, hc)
      | Step_next ipv4_mask' \<Rightarrow> access_scan env hc ipv4_mask' ls)"

definition access_check2 :: "ht_env \<Rightarrow> httpd_conn \<Rightarrow> string \<Rightarrow> int \<times> httpd_conn" where
  "access_check2 env hc0 dir =
     (let hc = hc0\<lparr>accesspath := dir @ ''/'' @ ACCESS_FILE\<rparr> in
      case lstat_mtime env (accesspath hc) of
        None \<Rightarrow> (0, hc)
      | Some mtime \<Rightarrow>
          (case fopen_lines env (accesspath hc) of
             None \<Rightarrow> (- 1, access_denied env hc)
           | Some lines \<Rightarrow> access_scan env hc 0xffffffff lines))"

text \<open>
  \<^verbatim>\<open>access_check\<close> (lines 1010-1067) and \<^verbatim>\<open>auth_check\<close> (lines 1203-1260). The
  argument \<open>None\<close> is \<^verbatim>\<open>dir == NULL\<close>: then a file name that contains the name of the
  access or password file is refused with \<^verbatim>\<open>return -1\<close>, without a call of
  \<^verbatim>\<open>httpd_send_err\<close>.
\<close>

definition containing_dir :: "string \<Rightarrow> string" where
  "containing_dir fn = (case strrchr fn (CHR ''/'') of None \<Rightarrow> ''.'' | Some p \<Rightarrow> take p fn)"

definition top_directory :: "httpd_conn \<Rightarrow> string" where
  "top_directory hc = (if vhost (hs hc) \<and> hostdir hc \<noteq> [] then hostdir hc else ''.'')"

definition access_check_local :: "ht_env \<Rightarrow> httpd_conn \<Rightarrow> string \<Rightarrow> int \<times> httpd_conn" where
  "access_check_local env hc dir =
     (case find_htfile env (top_directory hc) dir ACCESS_FILE of
        None \<Rightarrow> (0, hc)
      | Some path \<Rightarrow> access_check2 env hc path)"

definition access_check :: "ht_env \<Rightarrow> httpd_conn \<Rightarrow> string option \<Rightarrow> int \<times> httpd_conn" where
  "access_check env hc dir_arg =
     (if dir_arg = None \<and> strstr (expnfilename hc) ACCESS_FILE \<noteq> None then (- 1, hc)
      else
        let dir = (case dir_arg of None \<Rightarrow> containing_dir (expnfilename hc) | Some d \<Rightarrow> d) in
        if \<not> global_passwd (hs hc) then access_check_local env hc dir
        else case access_check2 env hc (top_directory hc) of
               (rc, hc1) \<Rightarrow> if rc = 0 then access_check_local env hc1 dir else (rc, hc1))"

definition auth_check_local ::
  "ht_env \<Rightarrow> int \<Rightarrow> httpd_conn \<Rightarrow> string \<Rightarrow> int \<times> httpd_conn \<times> int" where
  "auth_check_local env prevmtime hc dir =
     (case find_htfile env (top_directory hc) dir AUTH_FILE of
        None \<Rightarrow> (0, hc, prevmtime)
      | Some path \<Rightarrow> auth_check2 env prevmtime hc path)"

definition auth_check ::
  "ht_env \<Rightarrow> int \<Rightarrow> httpd_conn \<Rightarrow> string option \<Rightarrow> int \<times> httpd_conn \<times> int" where
  "auth_check env prevmtime hc dir_arg =
     (if dir_arg = None \<and> strstr (expnfilename hc) AUTH_FILE \<noteq> None then (- 1, hc, prevmtime)
      else
        let dir = (case dir_arg of None \<Rightarrow> containing_dir (expnfilename hc) | Some d \<Rightarrow> d) in
        if \<not> global_passwd (hs hc) then auth_check_local env prevmtime hc dir
        else case auth_check2 env prevmtime hc (top_directory hc) of
               (rc, hc1, prevmtime1) \<Rightarrow>
                 if rc = 0 then auth_check_local env prevmtime1 hc1 dir else (rc, hc1, prevmtime1))"

text \<open>
  Lines 4168-4178 of \<^verbatim>\<open>really_start_request\<close>: the two checks for a regular file; the
  result \<open>0\<close> stands for "go on".
\<close>

definition really_start_request_checks ::
  "ht_env \<Rightarrow> int \<Rightarrow> httpd_conn \<Rightarrow> int \<times> httpd_conn \<times> int" where
  "really_start_request_checks env prevmtime hc =
     (case access_check env hc None of
        (rc, hc1) \<Rightarrow>
          if rc = - 1 then (- 1, hc1, prevmtime)
          else case auth_check env prevmtime hc1 None of
                 (rc2, hc2, prevmtime2) \<Rightarrow>
                   if rc2 = - 1 then (- 1, hc2, prevmtime2) else (0, hc2, prevmtime2))"

section \<open>Which entry of the password file decides\<close>

text \<open>The user and the crypted password that the scan reads from a line, if it has a colon.\<close>

definition htpasswd_entry :: "string \<Rightarrow> (string \<times> string) option" where
  "htpasswd_entry l =
     (case strchr (nuke_newline l) (CHR '':'') of
        None \<Rightarrow> None
      | Some i \<Rightarrow> Some (take i (nuke_newline l), drop (Suc i) (nuke_newline l)))"

definition names_user :: "string \<Rightarrow> string \<Rightarrow> bool" where
  "names_user user l \<longleftrightarrow> map_option fst (htpasswd_entry l) = Some user"

lemma auth_scan_skip:
  "\<not> names_user authinfo l \<Longrightarrow>
   auth_scan env hc dir mtime authinfo authpass prevmtime (l # ls)
   = auth_scan env hc dir mtime authinfo authpass prevmtime ls"
  by (auto simp: names_user_def htpasswd_entry_def Let_def split: option.splits)

lemma auth_scan_hit:
  assumes "htpasswd_entry l = Some (authinfo, cryp)"
  shows "fst (auth_scan env hc dir mtime authinfo authpass prevmtime (l # ls)) = 1
         \<longleftrightarrow> crypt env authpass cryp = Some cryp"
  using assms
  by (auto simp: htpasswd_entry_def Let_def split: option.splits)

lemma auth_scan_first_match:
  assumes "list_all (\<lambda>l. \<not> names_user authinfo l) pre"
    and "htpasswd_entry l = Some (authinfo, cryp)"
  shows "fst (auth_scan env hc dir mtime authinfo authpass prevmtime (pre @ l # post)) = 1
         \<longleftrightarrow> crypt env authpass cryp = Some cryp"
  using assms(1)
proof (induction pre)
  case Nil
  show ?case using auth_scan_hit [OF assms(2)] by simp
next
  case (Cons p pre)
  then have "\<not> names_user authinfo p" and "list_all (\<lambda>l. \<not> names_user authinfo l) pre"
    by simp_all
  with Cons.IH show ?case
    by (simp add: auth_scan_skip del: auth_scan.simps)
qed

text \<open>
  C5, amended: when \<^verbatim>\<open>auth_check2\<close> scans the password file for the presented user and
  password, the first line whose user field equals the presented user decides: the request
  is accepted exactly when \<^verbatim>\<open>crypt\<close> of the password with that line's crypted password
  returns it, whatever lines follow.
\<close>

theorem auth_first_matching_entry_decides:
  assumes "lstat_mtime env (dir @ ''/'' @ AUTH_FILE) = Some mtime"
    and "prefix ''Basic '' (authorization hc)"
    and "basic_credentials env hc = Some (user, pass)"
    and "\<not> auth_cached (hc\<lparr>authpath := dir @ ''/'' @ AUTH_FILE\<rparr>) mtime prevmtime user"
    and "fopen_lines env (dir @ ''/'' @ AUTH_FILE) = Some (pre @ l # post)"
    and "list_all (\<lambda>l. \<not> names_user user l) pre"
    and "htpasswd_entry l = Some (user, cryp)"
  shows "fst (auth_check2 env prevmtime hc dir) = 1 \<longleftrightarrow> crypt env pass cryp = Some cryp"
proof -
  let ?hc = "hc\<lparr>authpath := dir @ ''/'' @ AUTH_FILE\<rparr>"
  have c: "basic_credentials env ?hc = Some (user, pass)"
    using assms(3) by (simp add: basic_credentials_def)
  from assms(2) have ne: "authorization hc \<noteq> []"
    by auto
  have "auth_check2 env prevmtime hc dir
        = auth_scan env ?hc dir mtime user pass prevmtime (pre @ l # post)"
    using assms(1,2,4,5) c ne by (simp add: auth_check2_def Let_def)
  then show ?thesis
    using auth_scan_first_match [OF assms(6,7)] by simp
qed

text \<open>
  An example system: one password file with two entries for the user joe, a stand-in for
  crypt that prefixes the key with the two salt bytes, and the one Base64 text the
  examples present.
\<close>

definition example_ht_env :: ht_env where
  "example_ht_env =
     \<lparr>clock = 1000,
      file_exists = (\<lambda>p. p = ''./.htpasswd'' \<or> p = ''./.htaccess''),
      lstat_mtime = (\<lambda>p. if p = ''./.htpasswd'' \<or> p = ''./.htaccess'' then Some 500 else None),
      fopen_lines = (\<lambda>p. if p = ''./.htpasswd''
                          then Some [''joe:abold'' @ [CHR 0x0A], ''joe:abpw'' @ [CHR 0x0A]]
                          else if p = ''./.htaccess''
                          then Some [''deny 10.0.0.1'' @ [CHR 0x0A], ''allow 10.0.0.1'' @ [CHR 0x0A]]
                          else None),
      crypt = (\<lambda>key salt. Some (take 2 salt @ key)),
      b64_decode = (\<lambda>s. if s = ''am9lOnB3'' then ''joe:pw'' else []),
      inet_aton = (\<lambda>s. if s = ''10.0.0.1'' then Some 0x0A000001
                        else if s = ''10.0.0.0'' then Some 0x0A000000
                        else if s = ''255.0.0.0'' then Some 0xFF000000
                        else if s = ''192.168.1.1'' then Some 0xC0A80101
                        else None),
      atol_of = (\<lambda>s. 0),
      htonl = (\<lambda>w. w)\<rparr>"

definition joe_request :: httpd_conn where
  "joe_request =
     (httpd_init_conn_content blank_conn)
       \<lparr>method := METHOD_GET, protocol := ''HTTP/1.1'', encodedurl := ''/file.txt'',
        expnfilename := ''file.txt'', authorization := ''Basic am9lOnB3'',
        client_addr := 0x0A000001\<rparr>"

text \<open>
  C5, as the specification states it: the last matching entry decides. With the entries
  \<^verbatim>\<open>joe:abold\<close> and \<^verbatim>\<open>joe:abpw\<close> and the password \<^verbatim>\<open>pw\<close>, the last entry verifies and
  the request is refused.
\<close>

theorem auth_last_entry_counterexample:
  "fopen_lines example_ht_env (''.'' @ ''/'' @ AUTH_FILE)
     = Some [''joe:abold'' @ [CHR 0x0A], ''joe:abpw'' @ [CHR 0x0A]]
   \<and> basic_credentials example_ht_env joe_request = Some (''joe'', ''pw'')
   \<and> htpasswd_entry (''joe:abold'' @ [CHR 0x0A]) = Some (''joe'', ''abold'')
   \<and> htpasswd_entry (''joe:abpw'' @ [CHR 0x0A]) = Some (''joe'', ''abpw'')
   \<and> crypt example_ht_env ''pw'' ''abpw'' = Some ''abpw''
   \<and> fst (auth_check2 example_ht_env 0 joe_request ''.'') = - 1"
  by code_simp

theorem auth_first_matching_entry_decides_witness:
  "lstat_mtime example_ht_env (''.'' @ ''/'' @ AUTH_FILE) = Some 500
   \<and> prefix ''Basic '' (authorization joe_request)
   \<and> basic_credentials example_ht_env joe_request = Some (''joe'', ''pw'')
   \<and> \<not> auth_cached (joe_request\<lparr>authpath := ''.'' @ ''/'' @ AUTH_FILE\<rparr>) 500 0 ''joe''
   \<and> fopen_lines example_ht_env (''.'' @ ''/'' @ AUTH_FILE)
       = Some ([] @ (''joe:abold'' @ [CHR 0x0A]) # [''joe:abpw'' @ [CHR 0x0A]])
   \<and> htpasswd_entry (''joe:abold'' @ [CHR 0x0A]) = Some (''joe'', ''abold'')
   \<and> crypt example_ht_env ''pw'' ''abold'' \<noteq> Some ''abold''
   \<and> fst (auth_check2 example_ht_env 0 joe_request ''.'') \<noteq> 1"
proof -
  have a: "lstat_mtime example_ht_env (''.'' @ ''/'' @ AUTH_FILE) = Some 500"
    by code_simp
  have b: "prefix ''Basic '' (authorization joe_request)"
    by code_simp
  have c: "basic_credentials example_ht_env joe_request = Some (''joe'', ''pw'')"
    by code_simp
  have d: "\<not> auth_cached (joe_request\<lparr>authpath := ''.'' @ ''/'' @ AUTH_FILE\<rparr>) 500 0 ''joe''"
    by code_simp
  have e: "fopen_lines example_ht_env (''.'' @ ''/'' @ AUTH_FILE)
       = Some ([] @ (''joe:abold'' @ [CHR 0x0A]) # [''joe:abpw'' @ [CHR 0x0A]])"
    by code_simp
  have f: "list_all (\<lambda>l. \<not> names_user ''joe'' l) []"
    by simp
  have g: "htpasswd_entry (''joe:abold'' @ [CHR 0x0A]) = Some (''joe'', ''abold'')"
    by code_simp
  have h: "crypt example_ht_env ''pw'' ''abold'' \<noteq> Some ''abold''"
    by code_simp
  from auth_first_matching_entry_decides [OF a b c d e f g] h
  have "fst (auth_check2 example_ht_env 0 joe_request ''.'') \<noteq> 1"
    by blast
  with a b c d e g h show ?thesis
    by blast
qed

text \<open>
  C4 at a concrete input: the access file holds \<^verbatim>\<open>deny 10.0.0.1\<close> and then
  \<^verbatim>\<open>allow 10.0.0.1\<close>, the client is 10.0.0.1. The first matching line is the deny line;
  \<^verbatim>\<open>access_check2\<close> returns 1 and sends nothing.
\<close>

theorem access_deny_then_allow_is_allowed:
  "fopen_lines example_ht_env (''.'' @ ''/'' @ ACCESS_FILE)
     = Some [''deny 10.0.0.1'' @ [CHR 0x0A], ''allow 10.0.0.1'' @ [CHR 0x0A]]
   \<and> client_addr joe_request = 0x0A000001
   \<and> inet_aton example_ht_env ''10.0.0.1'' = Some 0x0A000001
   \<and> fst (access_check2 example_ht_env joe_request ''.'') = 1
   \<and> status (snd (access_check2 example_ht_env joe_request ''.'')) = 0"
  by code_simp

text \<open>
  The mask of one line is still in force on the next: behind
  \<^verbatim>\<open>allow 10.0.0.0/255.0.0.0\<close> the line \<^verbatim>\<open>allow 192.168.1.1\<close> admits the client
  192.168.7.7.
\<close>

lemma access_mask_carried_to_next_line:
  "fst (access_scan example_ht_env (joe_request\<lparr>client_addr := 0xC0A80707\<rparr>) 0xffffffff
          [''allow 10.0.0.0/255.0.0.0'' @ [CHR 0x0A], ''allow 192.168.1.1'' @ [CHR 0x0A]]) = 1"
  by code_simp

section \<open>A request for the password file itself\<close>

definition htpasswd_request :: httpd_conn where
  "htpasswd_request = joe_request\<lparr>encodedurl := ''/.htpasswd'', expnfilename := ''.htpasswd''\<rparr>"

lemma auth_check_literal_name:
  "strstr (expnfilename hc) AUTH_FILE \<noteq> None \<Longrightarrow> auth_check env prevmtime hc None = (- 1, hc, prevmtime)"
  by (simp add: auth_check_def)

lemma access_check_literal_name:
  "strstr (expnfilename hc) ACCESS_FILE \<noteq> None \<Longrightarrow> access_check env hc None = (- 1, hc)"
  by (simp add: access_check_def)

definition htpasswd_only_env :: ht_env where
  "htpasswd_only_env =
     example_ht_env
       \<lparr>file_exists := (\<lambda>p. p = ''./.htpasswd''),
        lstat_mtime := (\<lambda>p. if p = ''./.htpasswd'' then Some 500 else None),
        fopen_lines := (\<lambda>p. if p = ''./.htpasswd''
                            then Some [''joe:abold'' @ [CHR 0x0A], ''joe:abpw'' @ [CHR 0x0A]]
                            else None)\<rparr>"

text \<open>
  C6 at a concrete input: a request whose file name is \<^verbatim>\<open>.htpasswd\<close>, from a client that
  passes the access check, first in the directory of the examples above (its access file
  ends with an allow line for the client), then in a directory without access file. The
  checks return \<open>-1\<close>, and the connection has status 0 and an empty response: no 403 has
  been composed.
\<close>

theorem htpasswd_request_gets_no_response:
  "(case really_start_request_checks example_ht_env 0 htpasswd_request of
      (rc, hc', prevmtime) \<Rightarrow> (rc, status hc', response hc')) = (- 1, 0, [])
   \<and> lstat_mtime htpasswd_only_env (''.'' @ ''/'' @ ACCESS_FILE) = None
   \<and> (case really_start_request_checks htpasswd_only_env 0 htpasswd_request of
        (rc, hc', prevmtime) \<Rightarrow> (rc, status hc', response hc')) = (- 1, 0, [])"
  by code_simp

section \<open>expand_symlinks (libhttpd.c, lines 1705-1902)\<close>

text \<open>
  The file system is a parameter: \<^verbatim>\<open>stat\<close> tells whether a path exists, \<^verbatim>\<open>readlink\<close> gives
  the contents of a link, or fails with \<^verbatim>\<open>EINVAL\<close> (the path is there and is not a link), with
  one of \<^verbatim>\<open>EACCES\<close>, \<^verbatim>\<open>ENOENT\<close>, \<^verbatim>\<open>ENOTDIR\<close> (written \<open>ENOENT\<close> here: the source
  treats the three alike), or with any other error. \<^verbatim>\<open>MAX_LINKS\<close> is defined outside
  libhttpd.c and is the parameter \<open>max_links\<close>.
\<close>

datatype readlink_result = Link string | EINVAL | ENOENT | Other_errno

record file_system =
  stat_ok :: "string \<Rightarrow> bool"
  readlink :: "string \<Rightarrow> readlink_result"

text \<open>
  \<open>checked\<close> is the content of the buffer \<^verbatim>\<open>checked\<close> below \<^verbatim>\<open>checkedlen\<close>; the byte at
  \<^verbatim>\<open>checkedlen\<close> is always NUL, so the C string the library calls see is \<open>cstr checked\<close>.

  A \<^verbatim>\<open>..\<close> component (lines 1789-1797 and 1812-1821): nothing when \<^verbatim>\<open>checkedlen\<close> is 0,
  else cut at the last slash, keeping the slash when it is the first byte.
\<close>

definition pop_component :: "string \<Rightarrow> string" where
  "pop_component checked =
     (if checked = [] then []
      else case strrchr (cstr checked) (CHR ''/'') of
             None \<Rightarrow> []
           | Some k \<Rightarrow> if k = 0 then take 1 checked else take k checked)"

text \<open>Any other component (lines 1799-1803 and 1823-1827).\<close>

definition push_component :: "string \<Rightarrow> string \<Rightarrow> string" where
  "push_component checked c =
     (if checked \<noteq> [] \<and> last checked \<noteq> CHR ''/'' then checked @ ''/'' @ c else checked @ c)"

text \<open>
  Lines 1779-1831: one component goes from \<^verbatim>\<open>r\<close> to \<^verbatim>\<open>checked\<close>. The result is the new
  \<^verbatim>\<open>checked\<close>, whether the component was \<^verbatim>\<open>..\<close>, and the new \<^verbatim>\<open>r\<close>.
  \<^verbatim>\<open>strncmp(r, "..", MAX(i, 2)) == 0\<close> with a slash at \<^verbatim>\<open>r[i]\<close>, \<open>0 < i\<close>, holds exactly when
  the \<open>i\<close> bytes before the slash are \<^verbatim>\<open>..\<close>.
\<close>

definition grab_component :: "string \<Rightarrow> string \<Rightarrow> string \<times> bool \<times> string" where
  "grab_component checked r =
     (case strchr r (CHR ''/'') of
        Some i \<Rightarrow>
          (if i = 0 then (checked @ ''/'', False, drop (Suc i) r)
           else if take i r = ''..'' then (pop_component checked, True, drop (Suc i) r)
           else (push_component checked (take i r), False, drop (Suc i) r))
      | None \<Rightarrow>
          (if r = ''..'' then (pop_component checked, True, [])
           else (push_component checked r, False, [])))"

text \<open>
  The bytes of the buffer below \<^verbatim>\<open>prevcheckedlen\<close> after the component was moved: a \<^verbatim>\<open>..\<close>
  has written a NUL at the new \<^verbatim>\<open>checkedlen\<close>, anything else has only written above
  \<^verbatim>\<open>prevcheckedlen\<close>. Lines 1848 and 1892-1893 go back to these bytes.
\<close>

definition restore_checked :: "string \<Rightarrow> string \<Rightarrow> bool \<Rightarrow> string" where
  "restore_checked prev checked popped = (if popped then prev[length checked := NUL] else prev)"

text \<open>
  Lines 1837 and 1862-1864: at most 4999 bytes of the link, one trailing slash trimmed. For
  an empty link the source reads \<^verbatim>\<open>link[-1]\<close>; the model then trims nothing.
\<close>

definition link_contents :: "string \<Rightarrow> string" where
  "link_contents target =
     (let link = cstr (take 4999 target) in
      if link \<noteq> [] \<and> last link = CHR ''/'' then butlast link else link)"

lemma grab_component_shorter:
  "r \<noteq> [] \<Longrightarrow> grab_component checked r = (c1, popped, r1) \<Longrightarrow> length r1 < length r"
  by (auto simp: grab_component_def split: option.splits if_splits)

text \<open>
  The loop of lines 1771-1895. The result is the pair of the returned string and
  \<^verbatim>\<open>*trailer\<close>; \<open>None\<close> is the return of \<^verbatim>\<open>NULL\<close>. When a component is bogus the trailer is
  \<^verbatim>\<open>r - (prevrestlen - restlen)\<close>, the rest as it was before the component was taken.
\<close>

function expand_loop ::
  "file_system \<Rightarrow> nat \<Rightarrow> string \<Rightarrow> string \<Rightarrow> nat \<Rightarrow> (string \<times> string) option" where
  "expand_loop fs max_links checked r nlinks =
     (if r = [] then Some (if cstr checked = [] then ''.'' else cstr checked, [])
      else
        case grab_component checked r of
          (checked1, popped, r1) \<Rightarrow>
            if cstr checked1 = [] then expand_loop fs max_links checked1 r1 nlinks
            else
              (case readlink fs (cstr checked1) of
                 EINVAL \<Rightarrow> expand_loop fs max_links checked1 r1 nlinks
               | ENOENT \<Rightarrow>
                   Some (if checked = [] then ''.'' else cstr (restore_checked checked checked1 popped), r)
               | Other_errno \<Rightarrow> None
               | Link target \<Rightarrow>
                   if Suc nlinks > max_links then None
                   else
                     let link = link_contents target;
                         rest = (if r1 \<noteq> [] then link @ ''/'' @ r1 else link)
                     in if prefix ''/'' rest then expand_loop fs max_links [] rest (Suc nlinks)
                        else expand_loop fs max_links (restore_checked checked checked1 popped) rest
                               (Suc nlinks)))"
  by pat_completeness auto
termination
proof (relation "measures [\<lambda>(fs, max_links, checked, r, nlinks). Suc max_links - nlinks,
                           \<lambda>(fs, max_links, checked, r, nlinks). length r]")
qed (auto dest: grab_component_shorter [OF _ sym])

declare expand_loop.simps [simp del]

text \<open>Lines 1718-1768: the short cut of \<^verbatim>\<open>no_symlink_check\<close>, then the set-up of the loop.\<close>

definition expand_symlinks ::
  "file_system \<Rightarrow> nat \<Rightarrow> string \<Rightarrow> bool \<Rightarrow> bool \<Rightarrow> (string \<times> string) option" where
  "expand_symlinks fs max_links path no_symlink_check tildemapped =
     (if no_symlink_check \<and> stat_ok fs (cstr path)
      then Some (rev (dropWhile (\<lambda>c. c = CHR ''/'') (rev (cstr path))), [])
      else expand_loop fs max_links []
             (if \<not> tildemapped then dropWhile (\<lambda>c. c = CHR ''/'') (cstr path) else cstr path) 0)"

subsection \<open>What a contained path is\<close>

text \<open>
  The components of a path, split at every slash; the lengths at which a path ends or is
  followed by a slash; a path none of whose prefixes at these lengths is a symbolic link. A
  path is contained when it is \<^verbatim>\<open>.\<close>, or is relative, has no component \<^verbatim>\<open>..\<close> and goes
  through no symbolic link: then it names a file below the directory it starts from.
\<close>

definition components :: "string \<Rightarrow> string list" where
  "components s =
     foldr (\<lambda>ch acc. if ch = CHR ''/'' then [] # acc else (ch # hd acc) # tl acc) s [[]]"

definition boundaries :: "string \<Rightarrow> nat list" where
  "boundaries s = filter (\<lambda>k. k = length s \<or> s ! k = CHR ''/'') [1..<Suc (length s)]"

definition no_symlink_prefix :: "file_system \<Rightarrow> string \<Rightarrow> bool" where
  "no_symlink_prefix fs s = list_all (\<lambda>k. readlink fs (take k s) = EINVAL) (boundaries s)"

definition contained :: "file_system \<Rightarrow> string \<Rightarrow> bool" where
  "contained fs s \<longleftrightarrow>
     s = ''.'' \<or>
     (s \<noteq> [] \<and> \<not> prefix ''/'' s \<and> ''..'' \<notin> set (components s) \<and> no_symlink_prefix fs s)"

text \<open>A link that is not empty, not absolute, and has no empty component inside.\<close>

definition relative_target :: "string \<Rightarrow> bool" where
  "relative_target t \<longleftrightarrow>
     t \<noteq> [] \<and> \<not> prefix ''/'' t \<and> \<not> sublist ''//'' t \<and> NUL \<notin> set t"

text \<open>The invariant of the loop, for \<^verbatim>\<open>checked\<close> and for the rest of the file name.\<close>

definition pre_verified :: "file_system \<Rightarrow> string \<Rightarrow> bool" where
  "pre_verified fs s \<longleftrightarrow>
     (\<forall>k. 0 < k \<and> k < length s \<and> s ! k = CHR ''/'' \<longrightarrow> readlink fs (take k s) = EINVAL)"

definition inv_checked :: "file_system \<Rightarrow> string \<Rightarrow> bool" where
  "inv_checked fs s \<longleftrightarrow>
     NUL \<notin> set s \<and> \<not> prefix ''/'' s \<and> ''..'' \<notin> set (components s) \<and> pre_verified fs s"

definition inv_rest :: "string \<Rightarrow> bool" where
  "inv_rest r \<longleftrightarrow> NUL \<notin> set r \<and> \<not> sublist ''//'' r \<and> \<not> prefix ''/'' r"

lemma no_symlink_prefix_iff:
  "no_symlink_prefix fs s \<longleftrightarrow> pre_verified fs s \<and> (s = [] \<or> readlink fs s = EINVAL)"
proof
  assume a: "no_symlink_prefix fs s"
  have all: "readlink fs (take k s) = EINVAL"
    if "0 < k" "k \<le> length s" "k = length s \<or> s ! k = CHR ''/''" for k
  proof -
    from a have "\<forall>k\<in>set (boundaries s). readlink fs (take k s) = EINVAL"
      by (simp add: no_symlink_prefix_def list_all_iff)
    moreover from that have "k \<in> set (boundaries s)"
      by (auto simp: boundaries_def)
    ultimately show ?thesis by blast
  qed
  have "pre_verified fs s"
    unfolding pre_verified_def using all by simp
  moreover have "s = [] \<or> readlink fs s = EINVAL"
    using all [of "length s"] by auto
  ultimately show "pre_verified fs s \<and> (s = [] \<or> readlink fs s = EINVAL)" by simp
next
  assume b: "pre_verified fs s \<and> (s = [] \<or> readlink fs s = EINVAL)"
  show "no_symlink_prefix fs s"
    unfolding no_symlink_prefix_def boundaries_def list_all_iff
  proof
    fix k assume "k \<in> set (filter (\<lambda>k. k = length s \<or> s ! k = CHR ''/'') [1..<Suc (length s)])"
    then have k: "0 < k" "k \<le> length s" "k = length s \<or> s ! k = CHR ''/''" by auto
    show "readlink fs (take k s) = EINVAL"
    proof (cases "k = length s")
      case True
      with k b show ?thesis by auto
    next
      case False
      with k have "k < length s" "s ! k = CHR ''/''" by auto
      with k b show ?thesis unfolding pre_verified_def by blast
    qed
  qed
qed

lemma NUL_not_slash [simp]: "NUL \<noteq> CHR ''/''"
  by (simp add: NUL_def)

lemma cstr_id: "NUL \<notin> set s \<Longrightarrow> cstr s = s"
  by (auto simp: cstr_def takeWhile_eq_all_conv)

lemma takeWhile_upto: "c \<notin> set a \<Longrightarrow> takeWhile (\<lambda>x. x \<noteq> c) (a @ c # b) = a"
  by (induction a) auto

lemma prefix_single: "prefix [c] s \<longleftrightarrow> s \<noteq> [] \<and> hd s = c"
  by (cases s) auto

lemma suffix_single: "suffix [c] s \<longleftrightarrow> s \<noteq> [] \<and> last s = c"
  by (cases s rule: rev_cases) auto

lemma strchr_SomeE:
  assumes "strchr s c = Some i"
  obtains a b where "s = a @ c # b" "c \<notin> set a" "i = length a"
proof -
  from assms have m: "c \<in> set s" and i: "i = length (takeWhile (\<lambda>x. x \<noteq> c) s)"
    by (auto simp: strchr_def split: if_splits)
  from split_list_first [OF m] obtain a b where s: "s = a @ c # b" "c \<notin> set a" by blast
  then have "takeWhile (\<lambda>x. x \<noteq> c) s = a"
    by (simp add: takeWhile_upto)
  with i s that show thesis by simp
qed

lemma strchr_None: "strchr s c = None \<longleftrightarrow> c \<notin> set s"
  by (simp add: strchr_def)

lemma strrchr_SomeE:
  assumes "strrchr s c = Some k"
  obtains a b where "s = a @ c # b" "c \<notin> set b" "k = length a"
proof -
  from assms have m: "c \<in> set s"
    and k: "k = length s - 1 - length (takeWhile (\<lambda>x. x \<noteq> c) (rev s))"
    by (auto simp: strrchr_def split: if_splits)
  from split_list_last [OF m] obtain a b where s: "s = a @ c # b" "c \<notin> set b" by blast
  then have "takeWhile (\<lambda>x. x \<noteq> c) (rev s) = rev b"
    by (simp add: takeWhile_upto)
  with k s have "k = length a" by simp
  with s that show thesis by simp
qed

lemma strrchr_None: "strrchr s c = None \<longleftrightarrow> c \<notin> set s"
  by (simp add: strrchr_def)

lemma components_not_Nil: "components s \<noteq> []"
  by (induction s) (simp_all add: components_def)

lemma components_Nil: "components [] = [[]]"
  by (simp add: components_def)

lemma components_Cons:
  "components (x # s) =
     (if x = CHR ''/'' then [] # components s
      else (x # hd (components s)) # tl (components s))"
  by (simp add: components_def)

lemma components_append_slash:
  "components (a @ CHR ''/'' # b) = components a @ components b"
proof (induction a)
  case Nil
  show ?case by (simp add: components_Cons components_Nil)
next
  case (Cons x a)
  then show ?case
    using components_not_Nil [of a]
    by (simp add: components_Cons)
qed

lemma components_no_slash: "CHR ''/'' \<notin> set c \<Longrightarrow> components c = [c]"
  by (induction c) (auto simp: components_Cons components_Nil)

lemma pop_component_cases:
  assumes "NUL \<notin> set cb" "\<not> prefix ''/'' cb"
  shows "pop_component cb = [] \<or>
         (\<exists>a b. cb = a @ CHR ''/'' # b \<and> CHR ''/'' \<notin> set b \<and> a \<noteq> [] \<and> pop_component cb = a)"
proof (cases "cb = []")
  case True
  then show ?thesis by (simp add: pop_component_def)
next
  case ne: False
  show ?thesis
  proof (cases "strrchr cb (CHR ''/'')")
    case None
    with ne assms show ?thesis by (simp add: pop_component_def cstr_id)
  next
    case (Some k)
    from strrchr_SomeE [OF Some] obtain a b
      where s: "cb = a @ CHR ''/'' # b" "CHR ''/'' \<notin> set b" "k = length a" by blast
    with assms(2) have a: "a \<noteq> []" by auto
    with s Some ne assms(1) have "pop_component cb = a"
      by (simp add: pop_component_def cstr_id)
    with s a show ?thesis by blast
  qed
qed

lemma pre_verified_Nil: "pre_verified fs []"
  by (simp add: pre_verified_def)

lemma inv_checked_Nil: "inv_checked fs []"
  by (simp add: inv_checked_def pre_verified_Nil components_Nil)

lemma pop_component_inv:
  assumes inv: "inv_checked fs cb" and top: "cb = [] \<or> readlink fs cb = EINVAL"
  shows "inv_checked fs (pop_component cb)
         \<and> (pop_component cb = [] \<or> readlink fs (pop_component cb) = EINVAL)"
proof -
  from inv have nul: "NUL \<notin> set cb" and rel: "\<not> prefix ''/'' cb"
    and dd: "''..'' \<notin> set (components cb)" and pv: "pre_verified fs cb"
    by (simp_all add: inv_checked_def)
  from pop_component_cases [OF nul rel] show ?thesis
  proof (elim disjE exE conjE)
    assume "pop_component cb = []"
    then show ?thesis by (simp add: inv_checked_Nil)
  next
    fix a b
    assume cb: "cb = a @ CHR ''/'' # b" and a: "a \<noteq> []" and p: "pop_component cb = a"
    have 1: "NUL \<notin> set a" using nul cb by simp
    have 2: "\<not> prefix ''/'' a" using rel cb a by (simp add: prefix_single)
    have 3: "''..'' \<notin> set (components a)" using dd cb by (simp add: components_append_slash)
    have 4: "pre_verified fs a"
      unfolding pre_verified_def
    proof (intro allI impI)
      fix k assume k: "0 < k \<and> k < length a \<and> a ! k = CHR ''/''"
      then have "k < length cb" "cb ! k = CHR ''/''" using cb by (simp_all add: nth_append)
      with k pv have "readlink fs (take k cb) = EINVAL" unfolding pre_verified_def by blast
      moreover have "take k cb = take k a" using k cb by simp
      ultimately show "readlink fs (take k a) = EINVAL" by simp
    qed
    have "0 < length a" "length a < length cb" "cb ! length a = CHR ''/''"
      using a cb by simp_all
    with pv have "readlink fs (take (length a) cb) = EINVAL" unfolding pre_verified_def by blast
    then have 5: "readlink fs a = EINVAL" using cb by simp
    from 1 2 3 4 5 p show ?thesis by (simp add: inv_checked_def)
  qed
qed

lemma push_component_inv:
  assumes inv: "inv_checked fs cb" and top: "cb = [] \<or> readlink fs cb = EINVAL"
    and c: "c \<noteq> []" "c \<noteq> ''..''" "CHR ''/'' \<notin> set c" "NUL \<notin> set c"
  shows "inv_checked fs (push_component cb c)"
proof -
  from inv have nul: "NUL \<notin> set cb" and rel: "\<not> prefix ''/'' cb"
    and dd: "''..'' \<notin> set (components cb)" and pv: "pre_verified fs cb"
    by (simp_all add: inv_checked_def)
  have cnth: "\<And>j. j < length c \<Longrightarrow> c ! j \<noteq> CHR ''/''"
    using c(3) nth_mem by metis
  consider (empty) "cb = []" | (plain) "cb \<noteq> []" "last cb \<noteq> CHR ''/''"
    | (slash) "cb \<noteq> []" "last cb = CHR ''/''" by blast
  then show ?thesis
  proof cases
    case empty
    then have p: "push_component cb c = c" by (simp add: push_component_def)
    have "\<not> prefix ''/'' c" using c(1,3) by (cases c) auto
    moreover have "pre_verified fs c" unfolding pre_verified_def using cnth by blast
    ultimately show ?thesis using c p by (simp add: inv_checked_def components_no_slash)
  next
    case plain
    then have p: "push_component cb c = cb @ CHR ''/'' # c" by (simp add: push_component_def)
    have 2: "\<not> prefix ''/'' (cb @ CHR ''/'' # c)" using rel plain by (simp add: prefix_single)
    have 3: "''..'' \<notin> set (components (cb @ CHR ''/'' # c))"
      using dd c by (simp add: components_append_slash components_no_slash)
    have 4: "pre_verified fs (cb @ CHR ''/'' # c)"
      unfolding pre_verified_def
    proof (intro allI impI)
      fix k assume k: "0 < k \<and> k < length (cb @ CHR ''/'' # c) \<and> (cb @ CHR ''/'' # c) ! k = CHR ''/''"
      consider "k < length cb" | "k = length cb" | "k > length cb" by linarith
      then show "readlink fs (take k (cb @ CHR ''/'' # c)) = EINVAL"
      proof cases
        case 1
        with k have "cb ! k = CHR ''/''" by (simp add: nth_append)
        with 1 k pv have "readlink fs (take k cb) = EINVAL" unfolding pre_verified_def by blast
        with 1 show ?thesis by simp
      next
        case 2
        with top plain show ?thesis by simp
      next
        case 3
        then obtain j where j: "k = length cb + Suc j" by (metis less_iff_Suc_add add_Suc_right)
        with k have "j < length c" "c ! j = CHR ''/''" by (simp_all add: nth_append)
        with cnth show ?thesis by blast
      qed
    qed
    from nul c 2 3 4 p show ?thesis by (simp add: inv_checked_def)
  next
    case slash
    then have p: "push_component cb c = cb @ c" by (simp add: push_component_def)
    from slash obtain q where q: "cb = q @ [CHR ''/'']"
      by (metis append_butlast_last_id)
    have 2: "\<not> prefix ''/'' (cb @ c)" using rel slash by (simp add: prefix_single)
    have "''..'' \<notin> set (components q)" using dd q by (simp add: components_append_slash)
    then have 3: "''..'' \<notin> set (components (cb @ c))"
      using q c by (simp add: components_append_slash components_no_slash)
    have 4: "pre_verified fs (cb @ c)"
      unfolding pre_verified_def
    proof (intro allI impI)
      fix k assume k: "0 < k \<and> k < length (cb @ c) \<and> (cb @ c) ! k = CHR ''/''"
      show "readlink fs (take k (cb @ c)) = EINVAL"
      proof (cases "k < length cb")
        case True
        with k have "cb ! k = CHR ''/''" by (simp add: nth_append)
        with True k pv have "readlink fs (take k cb) = EINVAL" unfolding pre_verified_def by blast
        with True show ?thesis by simp
      next
        case False
        with k have "k - length cb < length c" by auto
        moreover from False k have "c ! (k - length cb) = CHR ''/''" by (simp add: nth_append)
        ultimately show ?thesis using cnth by blast
      qed
    qed
    from nul c 2 3 4 p show ?thesis by (simp add: inv_checked_def)
  qed
qed

subsection \<open>The loop keeps the invariant\<close>

lemma inv_rest_after_slash:
  assumes "inv_rest (a @ CHR ''/'' # b)"
  shows "inv_rest b"
proof -
  from assms have nul: "NUL \<notin> set b" and ds: "\<not> sublist ''//'' (a @ CHR ''/'' # b)"
    by (simp_all add: inv_rest_def)
  have 1: "\<not> sublist ''//'' b"
  proof
    assume "sublist ''//'' b"
    then obtain p s where "b = p @ ''//'' @ s" unfolding sublist_def by blast
    then have "a @ CHR ''/'' # b = (a @ CHR ''/'' # p) @ ''//'' @ s" by simp
    then have "sublist ''//'' (a @ CHR ''/'' # b)" unfolding sublist_def by blast
    with ds show False by simp
  qed
  have 2: "\<not> prefix ''/'' b"
  proof
    assume "prefix ''/'' b"
    then obtain b' where "b = CHR ''/'' # b'" by (cases b) auto
    then have "a @ CHR ''/'' # b = a @ ''//'' @ b'" by simp
    then have "sublist ''//'' (a @ CHR ''/'' # b)" unfolding sublist_def by blast
    with ds show False by simp
  qed
  from nul 1 2 show ?thesis by (simp add: inv_rest_def)
qed

lemma inv_rest_Nil: "inv_rest []"
  by (simp add: inv_rest_def)

lemma grab_component_inv:
  assumes inv: "inv_checked fs cb" and top: "cb = [] \<or> readlink fs cb = EINVAL"
    and rest: "inv_rest r" and ne: "r \<noteq> []"
    and grab: "grab_component cb r = (cb1, popped, r1)"
  shows "inv_checked fs cb1 \<and> inv_rest r1
         \<and> (popped \<longrightarrow> cb1 = [] \<or> readlink fs cb1 = EINVAL)"
proof (cases "strchr r (CHR ''/'')")
  case None
  then have ns: "CHR ''/'' \<notin> set r" by (simp add: strchr_None)
  from rest have nul: "NUL \<notin> set r" by (simp add: inv_rest_def)
  show ?thesis
  proof (cases "r = ''..''")
    case True
    with None grab have "cb1 = pop_component cb" "popped" "r1 = []"
      by (simp_all add: grab_component_def)
    with pop_component_inv [OF inv top] show ?thesis by (simp add: inv_rest_Nil)
  next
    case False
    with None grab have "cb1 = push_component cb r" "\<not> popped" "r1 = []"
      by (simp_all add: grab_component_def)
    with push_component_inv [OF inv top ne False ns nul] show ?thesis by (simp add: inv_rest_Nil)
  qed
next
  case (Some i)
  from strchr_SomeE [OF Some] obtain a b
    where r: "r = a @ CHR ''/'' # b" "CHR ''/'' \<notin> set a" "i = length a" by blast
  from rest r have a: "a \<noteq> []" by (auto simp: inv_rest_def)
  from rest r have nul: "NUL \<notin> set a" by (simp add: inv_rest_def)
  from rest r have rb: "inv_rest b" using inv_rest_after_slash by blast
  from r have tk: "take i r = a" "drop (Suc i) r = b" by simp_all
  from r a have i0: "i \<noteq> 0" by simp
  show ?thesis
  proof (cases "a = ''..''")
    case True
    with Some grab tk i0 have "cb1 = pop_component cb" "popped" "r1 = b"
      by (simp_all add: grab_component_def)
    with pop_component_inv [OF inv top] rb show ?thesis by simp
  next
    case False
    with Some grab tk i0 have "cb1 = push_component cb a" "\<not> popped" "r1 = b"
      by (simp_all add: grab_component_def)
    with push_component_inv [OF inv top a False r(2) nul] rb show ?thesis by simp
  qed
qed

lemma link_contents_inv:
  assumes "relative_target t"
  shows "NUL \<notin> set (link_contents t) \<and> link_contents t \<noteq> []
         \<and> \<not> prefix ''/'' (link_contents t) \<and> \<not> sublist ''//'' (link_contents t)
         \<and> \<not> suffix ''/'' (link_contents t)"
proof -
  define l where "l = take 4999 t"
  from assms have t: "t \<noteq> []" "\<not> prefix ''/'' t" "\<not> sublist ''//'' t" "NUL \<notin> set t"
    by (simp_all add: relative_target_def)
  have nul: "NUL \<notin> set l" using t(4) in_set_takeD unfolding l_def by metis
  then have c: "cstr (take 4999 t) = l" by (simp add: cstr_id l_def)
  have ne: "l \<noteq> []" using t(1) by (simp add: l_def)
  have hd: "hd l = hd t" using t(1) by (cases t) (simp_all add: l_def)
  have rel: "\<not> prefix ''/'' l" using t(1,2) ne hd by (simp add: prefix_single)
  have "prefix l t" by (simp add: l_def take_is_prefix)
  then have sub: "sublist l t" by (rule prefix_imp_sublist)
  have ds: "\<not> sublist ''//'' l" using sub t(3) sublist_trans by blast
  show ?thesis
  proof (cases "last l = CHR ''/''")
    case False
    with ne c have lc: "link_contents t = l" by (simp add: link_contents_def)
    from False ne have "\<not> suffix ''/'' l" by (simp add: suffix_single)
    with nul ne rel ds lc show ?thesis by simp
  next
    case True
    with ne c have lc: "link_contents t = butlast l" by (simp add: link_contents_def)
    from True ne have l: "l = butlast l @ ''/''" by (metis append_butlast_last_id)
    have bne: "butlast l \<noteq> []"
    proof
      assume "butlast l = []"
      with l have "l = ''/''" by simp
      with rel show False by simp
    qed
    have 1: "NUL \<notin> set (butlast l)" using nul in_set_butlastD by metis
    have 2: "\<not> prefix ''/'' (butlast l)"
    proof
      assume "prefix ''/'' (butlast l)"
      then have "prefix ''/'' (butlast l @ ''/'')" by (rule prefix_prefix)
      with l rel show False by simp
    qed
    have "sublist (butlast l) l" by (metis l sublist_appendI append_Nil)
    then have 3: "\<not> sublist ''//'' (butlast l)" using ds sublist_trans by blast
    have 4: "\<not> suffix ''/'' (butlast l)"
    proof
      assume "suffix ''/'' (butlast l)"
      then obtain q where "butlast l = q @ ''/''" by (auto simp: suffix_def)
      with l have "l = q @ ''//'' @ []" by simp
      then have "sublist ''//'' l" unfolding sublist_def by blast
      with ds show False by simp
    qed
    from 1 2 3 4 bne lc show ?thesis by simp
  qed
qed

lemma inv_rest_link:
  assumes t: "relative_target t" and r1: "inv_rest r1"
  shows "inv_rest (if r1 \<noteq> [] then link_contents t @ ''/'' @ r1 else link_contents t)
         \<and> \<not> prefix ''/'' (if r1 \<noteq> [] then link_contents t @ ''/'' @ r1 else link_contents t)"
proof -
  define l where "l = link_contents t"
  from link_contents_inv [OF t] have l: "NUL \<notin> set l" "l \<noteq> []" "\<not> prefix ''/'' l"
    "\<not> sublist ''//'' l" "\<not> suffix ''/'' l" by (simp_all add: l_def)
  from r1 have r: "NUL \<notin> set r1" "\<not> sublist ''//'' r1" "\<not> prefix ''/'' r1"
    by (simp_all add: inv_rest_def)
  have a: "inv_rest l" using l by (simp add: inv_rest_def)
  have 1: "NUL \<notin> set (l @ ''/'' @ r1)" using l r by simp
  have 2: "\<not> prefix ''/'' (l @ ''/'' @ r1)" using l by (simp add: prefix_single)
  have s: "\<not> sublist ''//'' (CHR ''/'' # r1)"
    using r by (simp add: sublist_Cons_right)
  have 3: "\<not> sublist ''//'' (l @ ''/'' @ r1)"
  proof
    assume "sublist ''//'' (l @ ''/'' @ r1)"
    then have "sublist ''//'' l \<or> sublist ''//'' (''/'' @ r1)
               \<or> (suffix ''/'' l \<and> prefix ''/'' (''/'' @ r1))"
      by (rule sublist_join2)
    with l s show False by simp
  qed
  have b: "inv_rest (l @ ''/'' @ r1)" using 1 2 3 by (simp add: inv_rest_def)
  from a b l 2 show ?thesis unfolding l_def [symmetric] by simp
qed

lemma restore_checked_unpopped: "restore_checked cb cb1 False = cb"
  by (simp add: restore_checked_def)

lemma inv_checked_contained:
  assumes "inv_checked fs cb" "cb = [] \<or> readlink fs cb = EINVAL"
  shows "contained fs (if cstr cb = [] then ''.'' else cstr cb)"
proof -
  from assms(1) have nul: "NUL \<notin> set cb" by (simp add: inv_checked_def)
  then have c: "cstr cb = cb" by (rule cstr_id)
  show ?thesis
  proof (cases "cb = []")
    case True
    with c show ?thesis by (simp add: contained_def)
  next
    case False
    with assms have "no_symlink_prefix fs cb" by (simp add: no_symlink_prefix_iff inv_checked_def)
    with assms False c show ?thesis by (simp add: contained_def inv_checked_def)
  qed
qed

lemma expand_loop_done:
  "expand_loop fs max_links cb [] nlinks = Some (if cstr cb = [] then ''.'' else cstr cb, [])"
  by (simp add: expand_loop.simps)

lemma expand_loop_skip:
  "r \<noteq> [] \<Longrightarrow> grab_component cb r = (cb1, popped, r1) \<Longrightarrow> cstr cb1 = [] \<Longrightarrow>
     expand_loop fs max_links cb r nlinks = expand_loop fs max_links cb1 r1 nlinks"
  by (simp add: expand_loop.simps [of fs max_links cb r])

lemma expand_loop_EINVAL:
  "r \<noteq> [] \<Longrightarrow> grab_component cb r = (cb1, popped, r1) \<Longrightarrow> cstr cb1 \<noteq> [] \<Longrightarrow>
   readlink fs (cstr cb1) = EINVAL \<Longrightarrow>
     expand_loop fs max_links cb r nlinks = expand_loop fs max_links cb1 r1 nlinks"
  by (simp add: expand_loop.simps [of fs max_links cb r])

lemma expand_loop_ENOENT:
  "r \<noteq> [] \<Longrightarrow> grab_component cb r = (cb1, popped, r1) \<Longrightarrow> cstr cb1 \<noteq> [] \<Longrightarrow>
   readlink fs (cstr cb1) = ENOENT \<Longrightarrow>
     expand_loop fs max_links cb r nlinks =
       Some (if cb = [] then ''.'' else cstr (restore_checked cb cb1 popped), r)"
  by (simp add: expand_loop.simps [of fs max_links cb r])

lemma expand_loop_Other_errno:
  "r \<noteq> [] \<Longrightarrow> grab_component cb r = (cb1, popped, r1) \<Longrightarrow> cstr cb1 \<noteq> [] \<Longrightarrow>
   readlink fs (cstr cb1) = Other_errno \<Longrightarrow>
     expand_loop fs max_links cb r nlinks = None"
  by (simp add: expand_loop.simps [of fs max_links cb r])

lemma expand_loop_Link:
  "r \<noteq> [] \<Longrightarrow> grab_component cb r = (cb1, popped, r1) \<Longrightarrow> cstr cb1 \<noteq> [] \<Longrightarrow>
   readlink fs (cstr cb1) = Link t \<Longrightarrow>
   rest = (if r1 \<noteq> [] then link_contents t @ ''/'' @ r1 else link_contents t) \<Longrightarrow>
     expand_loop fs max_links cb r nlinks =
       (if Suc nlinks > max_links then None
        else if prefix ''/'' rest then expand_loop fs max_links [] rest (Suc nlinks)
        else expand_loop fs max_links (restore_checked cb cb1 popped) rest (Suc nlinks))"
  by (simp add: expand_loop.simps [of fs max_links cb r] Let_def)

lemma expand_loop_contained:
  assumes targets: "\<And>p t. readlink fs p = Link t \<Longrightarrow> relative_target t"
    and inv: "inv_checked fs cb" and top: "cb = [] \<or> readlink fs cb = EINVAL"
    and rest: "inv_rest r"
    and res: "expand_loop fs max_links cb r nlinks = Some (checked, trailer)"
  shows "contained fs checked"
  using assms
proof (induction fs max_links cb r nlinks rule: expand_loop.induct)
  case (1 fs max_links cb r nlinks)
  note targets = "1.prems"(1) and inv = "1.prems"(2) and top = "1.prems"(3)
    and rest = "1.prems"(4) and res = "1.prems"(5)
  show ?case
  proof (cases "r = []")
    case True
    with res have "checked = (if cstr cb = [] then ''.'' else cstr cb)"
      by (simp add: expand_loop_done)
    with inv_checked_contained [OF inv top] show ?thesis by simp
  next
    case ne: False
    obtain cb1 popped r1 where grab: "grab_component cb r = (cb1, popped, r1)"
      by (cases "grab_component cb r") auto
    from grab_component_inv [OF inv top rest ne grab]
    have inv1: "inv_checked fs cb1" and rest1: "inv_rest r1"
      and pop1: "popped \<Longrightarrow> cb1 = [] \<or> readlink fs cb1 = EINVAL" by simp_all
    from inv1 have c1: "cstr cb1 = cb1" by (simp add: cstr_id inv_checked_def)
    from inv have c0: "cstr cb = cb" by (simp add: cstr_id inv_checked_def)
    show ?thesis
    proof (cases "cb1 = []")
      case True
      then have e: "cstr cb1 = []" using c1 by simp
      from res expand_loop_skip [OF ne grab e]
      have rec: "expand_loop fs max_links cb1 r1 nlinks = Some (checked, trailer)" by simp
      have t1: "cb1 = [] \<or> readlink fs cb1 = EINVAL" using True by simp
      show ?thesis
        by (rule "1.IH"(1) [OF ne grab [symmetric] refl e targets inv1 t1 rest1 rec])
    next
      case nb: False
      then have n: "cstr cb1 \<noteq> []" using c1 by simp
      show ?thesis
      proof (cases "readlink fs cb1")
        case EINVAL
        then have l: "readlink fs (cstr cb1) = EINVAL" using c1 by simp
        from res expand_loop_EINVAL [OF ne grab n l]
        have rec: "expand_loop fs max_links cb1 r1 nlinks = Some (checked, trailer)" by simp
        have t1: "cb1 = [] \<or> readlink fs cb1 = EINVAL" using EINVAL by simp
        show ?thesis
          by (rule "1.IH"(4) [OF ne grab [symmetric] refl n l targets inv1 t1 rest1 rec])
      next
        case ENOENT
        with pop1 nb have np: "\<not> popped" by auto
        from ENOENT have l: "readlink fs (cstr cb1) = ENOENT" using c1 by simp
        from res expand_loop_ENOENT [OF ne grab n l] np
        have "checked = (if cb = [] then ''.'' else cstr cb)"
          by (simp add: restore_checked_unpopped split: if_splits)
        with inv_checked_contained [OF inv top] c0 show ?thesis by simp
      next
        case Other_errno
        then have l: "readlink fs (cstr cb1) = Other_errno" using c1 by simp
        from res expand_loop_Other_errno [OF ne grab n l] show ?thesis by simp
      next
        case (Link t)
        with pop1 nb have np: "\<not> popped" by auto
        from Link have l: "readlink fs (cstr cb1) = Link t" using c1 by simp
        from targets [OF Link] have rt: "relative_target t" .
        define rest' where "rest' = (if r1 \<noteq> [] then link_contents t @ ''/'' @ r1 else link_contents t)"
        from inv_rest_link [OF rt rest1] have ir: "inv_rest rest'" and np': "\<not> prefix ''/'' rest'"
          by (simp_all add: rest'_def)
        from res expand_loop_Link [OF ne grab n l rest'_def] np'
        have lim: "\<not> max_links < Suc nlinks"
          and rec: "expand_loop fs max_links (restore_checked cb cb1 popped) rest' (Suc nlinks)
                    = Some (checked, trailer)"
          by (simp_all split: if_splits)
        have rc: "restore_checked cb cb1 popped = cb" using np by (simp add: restore_checked_unpopped)
        have inv': "inv_checked fs (restore_checked cb cb1 popped)" using inv rc by simp
        have top': "restore_checked cb cb1 popped = [] \<or> readlink fs (restore_checked cb cb1 popped) = EINVAL"
          using top rc by simp
        show ?thesis
          by (rule "1.IH"(3) [OF ne grab [symmetric] refl n l lim refl rest'_def np' targets inv' top' ir rec])
      qed
    qed
  qed
qed

text \<open>A file system given by its links and by the names that are files or directories.\<close>

definition example_file_system :: "(string \<times> string) list \<Rightarrow> string list \<Rightarrow> file_system" where
  "example_file_system links files =
     \<lparr>stat_ok = (\<lambda>p. p \<in> set files \<or> map_of links p \<noteq> None),
      readlink = (\<lambda>p. case map_of links p of
                         Some t \<Rightarrow> Link t
                       | None \<Rightarrow> if p \<in> set files then EINVAL else ENOENT)\<rparr>"

definition farm_links :: "(string \<times> string) list" where
  "farm_links = [(''m'', ''a/b''), (''up'', ''../a/'')]"

definition farm_files :: "string list" where
  "farm_files = [''a'', ''a/b'']"

definition slash_links :: "(string \<times> string) list" where
  "slash_links = [(''l'', ''..//etc/passwd'')]"

definition slash_files :: "string list" where
  "slash_files = [''/'', ''/etc'', ''/etc/passwd'']"

lemma pop_component_Nil: "pop_component [] = []"
  by (simp add: pop_component_def)

lemma pop_component_last:
  assumes "NUL \<notin> set cb" "\<not> prefix ''/'' cb"
  shows "components (pop_component cb) =
           (if CHR ''/'' \<in> set cb then butlast (components cb) else [[]])"
proof (cases "strrchr cb (CHR ''/'')")
  case None
  then have "CHR ''/'' \<notin> set cb" by (simp add: strrchr_None)
  with None assms show ?thesis by (simp add: pop_component_def cstr_id components_Nil)
next
  case (Some k)
  then have m: "CHR ''/'' \<in> set cb" by (auto simp: strrchr_def split: if_splits)
  from strrchr_SomeE [OF Some] obtain a b
    where s: "cb = a @ CHR ''/'' # b" "CHR ''/'' \<notin> set b" "k = length a" by blast
  with assms(2) have a: "a \<noteq> []" by auto
  with s Some assms(1) have "pop_component cb = a"
    by (simp add: pop_component_def cstr_id)
  moreover from s have "components cb = components a @ [b]"
    by (simp add: components_append_slash components_no_slash)
  ultimately show ?thesis using m by simp
qed

lemma inv_rest_path:
  assumes "\<not> sublist ''//'' (cstr path)" "tildemapped \<longrightarrow> \<not> prefix ''/'' (cstr path)"
  shows "inv_rest (if \<not> tildemapped then dropWhile (\<lambda>c. c = CHR ''/'') (cstr path) else cstr path)"
proof -
  have nul: "NUL \<notin> set (cstr path)"
    by (auto simp: cstr_def dest: set_takeWhileD)
  show ?thesis
  proof (cases tildemapped)
    case True
    with assms nul show ?thesis by (simp add: inv_rest_def)
  next
    case False
    define d where "d = dropWhile (\<lambda>c. c = CHR ''/'') (cstr path)"
    have 1: "NUL \<notin> set d" using nul by (auto simp: d_def dest: set_dropWhileD)
    have "suffix d (cstr path)" unfolding d_def by (rule suffix_dropWhile)
    then have "sublist d (cstr path)" by (rule suffix_imp_sublist)
    then have 2: "\<not> sublist ''//'' d" using assms(1) sublist_trans by blast
    have 3: "\<not> prefix ''/'' d"
    proof
      assume "prefix ''/'' d"
      then have "d \<noteq> []" "hd d = CHR ''/''" by (simp_all add: prefix_single)
      then show False unfolding d_def using hd_dropWhile [of "\<lambda>c. c = CHR ''/''" "cstr path"] by simp
    qed
    from False 1 2 3 show ?thesis by (simp add: inv_rest_def d_def)
  qed
qed

lemma pop_component_verified:
  assumes nul: "NUL \<notin> set cb" and rel: "\<not> prefix ''/'' cb"
    and ver: "no_symlink_prefix fs cb"
  shows "NUL \<notin> set (pop_component cb)
         \<and> (pop_component cb = [] \<or> readlink fs (pop_component cb) = EINVAL)"
proof -
  from ver have pv: "pre_verified fs cb" by (simp add: no_symlink_prefix_iff)
  from pop_component_cases [OF nul rel] show ?thesis
  proof (elim disjE exE conjE)
    assume "pop_component cb = []"
    then show ?thesis by simp
  next
    fix a b
    assume cb: "cb = a @ CHR ''/'' # b" and a: "a \<noteq> []" and p: "pop_component cb = a"
    have 1: "NUL \<notin> set a" using nul cb by simp
    have "0 < length a" "length a < length cb" "cb ! length a = CHR ''/''"
      using a cb by simp_all
    with pv have "readlink fs (take (length a) cb) = EINVAL" unfolding pre_verified_def by blast
    then have "readlink fs a = EINVAL" using cb by simp
    with 1 p show ?thesis by simp
  qed
qed

lemma grab_component_dotdot_slash:
  "grab_component cb (''../'' @ r) = (pop_component cb, True, r)"
  by (simp add: grab_component_def strchr_def)

lemma grab_component_dotdot_last:
  "grab_component cb ''..'' = (pop_component cb, True, [])"
  by (simp add: grab_component_def strchr_def)

lemma expand_loop_dotdot_slash:
  assumes "NUL \<notin> set cb" "\<not> prefix ''/'' cb" "no_symlink_prefix fs cb"
  shows "expand_loop fs max_links cb (''../'' @ r) nlinks
         = expand_loop fs max_links (pop_component cb) r nlinks"
proof -
  from pop_component_verified [OF assms]
  have nul: "NUL \<notin> set (pop_component cb)"
    and top: "pop_component cb = [] \<or> readlink fs (pop_component cb) = EINVAL" by simp_all
  from nul have c: "cstr (pop_component cb) = pop_component cb" by (rule cstr_id)
  have ne: "''../'' @ r \<noteq> []" by simp
  show ?thesis
  proof (cases "pop_component cb = []")
    case True
    then have e: "cstr (pop_component cb) = []" using c by simp
    show ?thesis by (rule expand_loop_skip [OF ne grab_component_dotdot_slash e])
  next
    case False
    then have n: "cstr (pop_component cb) \<noteq> []" using c by simp
    from False top have l: "readlink fs (cstr (pop_component cb)) = EINVAL" using c by simp
    show ?thesis by (rule expand_loop_EINVAL [OF ne grab_component_dotdot_slash n l])
  qed
qed

lemma expand_loop_dotdot_last:
  assumes "NUL \<notin> set cb" "\<not> prefix ''/'' cb" "no_symlink_prefix fs cb"
  shows "expand_loop fs max_links cb ''..'' nlinks
         = Some (if pop_component cb = [] then ''.'' else pop_component cb, [])"
proof -
  from pop_component_verified [OF assms]
  have nul: "NUL \<notin> set (pop_component cb)"
    and top: "pop_component cb = [] \<or> readlink fs (pop_component cb) = EINVAL" by simp_all
  from nul have c: "cstr (pop_component cb) = pop_component cb" by (rule cstr_id)
  have ne: "''..'' \<noteq> []" by simp
  have "expand_loop fs max_links cb ''..'' nlinks = expand_loop fs max_links (pop_component cb) [] nlinks"
  proof (cases "pop_component cb = []")
    case True
    then have e: "cstr (pop_component cb) = []" using c by simp
    show ?thesis by (rule expand_loop_skip [OF ne grab_component_dotdot_last e])
  next
    case False
    then have n: "cstr (pop_component cb) \<noteq> []" using c by simp
    from False top have l: "readlink fs (cstr (pop_component cb)) = EINVAL" using c by simp
    show ?thesis by (rule expand_loop_EINVAL [OF ne grab_component_dotdot_last n l])
  qed
  then show ?thesis by (simp add: expand_loop_done c)
qed

text \<open>
  Claim C1, amended. When the short cut of \<^verbatim>\<open>no_symlink_check\<close> is not taken, the path has no
  \<^verbatim>\<open>//\<close> (and is relative if it was tilde-mapped), and every symbolic link is non-empty,
  relative and free of \<^verbatim>\<open>//\<close>, the path \<^verbatim>\<open>expand_symlinks\<close> returns is contained: it is
  \<^verbatim>\<open>.\<close>, or a relative path with no component \<^verbatim>\<open>..\<close> none of whose prefixes is a symbolic
  link. A \<^verbatim>\<open>..\<close> leaves an empty \<^verbatim>\<open>checked\<close> empty, and takes the last component off a
  relative one: from every state with a relative \<^verbatim>\<open>checked\<close> that goes through no symbolic
  link (the loop is in no other state under these conditions), a component \<^verbatim>\<open>..\<close> of the
  rest, followed by a slash or last, makes the loop go on with \<open>pop_component checked\<close> and
  with nothing else changed.
\<close>

theorem expand_symlinks_contained:
  assumes "\<not> (no_symlink_check \<and> stat_ok fs (cstr path))"
    and "\<not> sublist ''//'' (cstr path)"
    and "tildemapped \<longrightarrow> \<not> prefix ''/'' (cstr path)"
    and "\<forall>p t. readlink fs p = Link t \<longrightarrow> relative_target t"
    and "expand_symlinks fs max_links path no_symlink_check tildemapped = Some (checked, trailer)"
  shows "contained fs checked
         \<and> pop_component [] = []
         \<and> (\<forall>cb. NUL \<notin> set cb \<and> \<not> prefix ''/'' cb \<longrightarrow>
               components (pop_component cb) =
                 (if CHR ''/'' \<in> set cb then butlast (components cb) else [[]]))
         \<and> (\<forall>cb r nlinks.
               NUL \<notin> set cb \<and> \<not> prefix ''/'' cb \<and> no_symlink_prefix fs cb \<longrightarrow>
               expand_loop fs max_links cb (''../'' @ r) nlinks
                 = expand_loop fs max_links (pop_component cb) r nlinks
               \<and> expand_loop fs max_links cb ''..'' nlinks
                   = Some (if pop_component cb = [] then ''.'' else pop_component cb, []))"
proof -
  define r where "r = (if \<not> tildemapped then dropWhile (\<lambda>c. c = CHR ''/'') (cstr path) else cstr path)"
  from assms(1,5) have run: "expand_loop fs max_links [] r 0 = Some (checked, trailer)"
    by (simp add: expand_symlinks_def r_def split: if_splits)
  have ir: "inv_rest r" unfolding r_def by (rule inv_rest_path [OF assms(2,3)])
  have targets: "\<And>p t. readlink fs p = Link t \<Longrightarrow> relative_target t"
    using assms(4) by blast
  have c: "contained fs checked"
    by (rule expand_loop_contained [OF targets inv_checked_Nil _ ir run]) simp_all
  show ?thesis
  proof (intro conjI allI impI)
    show "contained fs checked" by (rule c)
    show "pop_component [] = []" by (rule pop_component_Nil)
    fix cb assume "NUL \<notin> set cb \<and> \<not> prefix ''/'' cb"
    then have "NUL \<notin> set cb" "\<not> prefix ''/'' cb" by simp_all
    then show "components (pop_component cb) =
                 (if CHR ''/'' \<in> set cb then butlast (components cb) else [[]])"
      by (rule pop_component_last)
  next
    fix cb r nlinks
    assume "NUL \<notin> set cb \<and> \<not> prefix ''/'' cb \<and> no_symlink_prefix fs cb"
    then have a: "NUL \<notin> set cb" "\<not> prefix ''/'' cb" "no_symlink_prefix fs cb" by simp_all
    show "expand_loop fs max_links cb (''../'' @ r) nlinks
            = expand_loop fs max_links (pop_component cb) r nlinks"
      by (rule expand_loop_dotdot_slash [OF a])
    show "expand_loop fs max_links cb ''..'' nlinks
            = Some (if pop_component cb = [] then ''.'' else pop_component cb, [])"
      by (rule expand_loop_dotdot_last [OF a])
  qed
qed

lemma farm_targets:
  "\<forall>p t. readlink (example_file_system farm_links farm_files) p = Link t \<longrightarrow> relative_target t"
proof (intro allI impI)
  fix p t
  assume "readlink (example_file_system farm_links farm_files) p = Link t"
  then have "map_of farm_links p = Some t"
    by (simp add: example_file_system_def split: option.splits if_splits)
  then have "(p, t) \<in> set farm_links" by (rule map_of_SomeD)
  then have "t = ''a/b'' \<or> t = ''../a/''" by (auto simp: farm_links_def)
  moreover have "relative_target ''a/b''" by code_simp
  moreover have "relative_target ''../a/''" by code_simp
  ultimately show "relative_target t" by blast
qed

text \<open>
  The theorem at the request \<^verbatim>\<open>/up/b/../../m/q\<close>, where \<^verbatim>\<open>up\<close> is a link to \<^verbatim>\<open>../a/\<close> and
  \<^verbatim>\<open>m\<close> a link to \<^verbatim>\<open>a/b\<close>: the result is \<^verbatim>\<open>a/b\<close> with the trailer \<^verbatim>\<open>q\<close>. From
  \<^verbatim>\<open>checked\<close> = \<^verbatim>\<open>a/b\<close> the rest \<^verbatim>\<open>../q\<close> ends in \<^verbatim>\<open>a\<close> with the trailer \<^verbatim>\<open>q\<close>, and the
  rest \<^verbatim>\<open>..\<close> ends in \<^verbatim>\<open>a\<close>; from an empty \<^verbatim>\<open>checked\<close> the rest \<^verbatim>\<open>../a\<close> ends in \<^verbatim>\<open>a\<close>.
\<close>

theorem expand_symlinks_contained_witness:
  "expand_symlinks (example_file_system farm_links farm_files) 32 ''/up/b/../../m/q'' False False
     = Some (''a/b'', ''q'')
   \<and> contained (example_file_system farm_links farm_files) ''a/b''
   \<and> components (pop_component ''a/b'') = [''a'']
   \<and> expand_loop (example_file_system farm_links farm_files) 32 ''a/b'' ''../q'' 0
       = Some (''a'', ''q'')
   \<and> expand_loop (example_file_system farm_links farm_files) 32 ''a/b'' ''..'' 0
       = Some (''a'', [])
   \<and> expand_loop (example_file_system farm_links farm_files) 32 [] ''../a'' 0
       = Some (''a'', [])"
proof -
  have run: "expand_symlinks (example_file_system farm_links farm_files) 32 ''/up/b/../../m/q'' False False
               = Some (''a/b'', ''q'')"
    by code_simp
  have h1: "\<not> (False \<and> stat_ok (example_file_system farm_links farm_files) (cstr ''/up/b/../../m/q''))"
    by simp
  have h2: "\<not> sublist ''//'' (cstr ''/up/b/../../m/q'')" by code_simp
  have h3: "False \<longrightarrow> \<not> prefix ''/'' (cstr ''/up/b/../../m/q'')" by simp
  have p: "components (pop_component ''a/b'') = [''a'']" by code_simp
  have s1: "NUL \<notin> set ''a/b'' \<and> \<not> prefix ''/'' ''a/b''
            \<and> no_symlink_prefix (example_file_system farm_links farm_files) ''a/b''"
    by code_simp
  have s2: "NUL \<notin> set [] \<and> \<not> prefix ''/'' []
            \<and> no_symlink_prefix (example_file_system farm_links farm_files) []"
    by code_simp
  have pa: "pop_component ''a/b'' = ''a''" by code_simp
  have pn: "pop_component [] = []" by code_simp
  have r1: "expand_loop (example_file_system farm_links farm_files) 32 ''a'' ''q'' 0 = Some (''a'', ''q'')"
    by code_simp
  have r2: "expand_loop (example_file_system farm_links farm_files) 32 [] ''a'' 0 = Some (''a'', [])"
    by code_simp
  note t = expand_symlinks_contained [OF h1 h2 h3 farm_targets run]
  from t have c: "contained (example_file_system farm_links farm_files) ''a/b''" by (rule conjunct1)
  from t have d: "\<forall>cb r nlinks.
      NUL \<notin> set cb \<and> \<not> prefix ''/'' cb
      \<and> no_symlink_prefix (example_file_system farm_links farm_files) cb \<longrightarrow>
      expand_loop (example_file_system farm_links farm_files) 32 cb (''../'' @ r) nlinks
        = expand_loop (example_file_system farm_links farm_files) 32 (pop_component cb) r nlinks
      \<and> expand_loop (example_file_system farm_links farm_files) 32 cb ''..'' nlinks
          = Some (if pop_component cb = [] then ''.'' else pop_component cb, [])"
    by (rule conjunct2 [THEN conjunct2, THEN conjunct2])
  from d [rule_format, OF s1, of "''q''" 0] pa r1
  have e1: "expand_loop (example_file_system farm_links farm_files) 32 ''a/b'' ''../q'' 0
              = Some (''a'', ''q'')"
    and e2: "expand_loop (example_file_system farm_links farm_files) 32 ''a/b'' ''..'' 0
              = Some (''a'', [])"
    by simp_all
  from d [rule_format, OF s2, of "''a''" 0] pn r2
  have e3: "expand_loop (example_file_system farm_links farm_files) 32 [] ''../a'' 0
              = Some (''a'', [])"
    by simp
  from run c p e1 e2 e3 show ?thesis by simp
qed

text \<open>
  Claim C1 as stated fails: no link is absolute, and yet for the link \<^verbatim>\<open>l\<close> to
  \<^verbatim>\<open>..//etc/passwd\<close> the returned path is \<^verbatim>\<open>/etc/passwd\<close>. The \<^verbatim>\<open>..\<close> leaves \<^verbatim>\<open>checked\<close>
  empty, and the empty component that follows is taken for the start of an absolute path
  (line 1782).
\<close>

theorem relative_link_yields_absolute_path_counterexample:
  "list_all (\<lambda>t. \<not> prefix ''/'' t) (map snd slash_links)
   \<and> expand_symlinks (example_file_system slash_links slash_files) 32 ''l'' False False
       = Some (''/etc/passwd'', [])
   \<and> \<not> contained (example_file_system slash_links slash_files) ''/etc/passwd''"
  by code_simp

end
